theory Spec2Isabelle
  imports Main
begin

unbundle bit_operations_syntax

section \<open>uHash: the open-addressing hash table of \<^verbatim>\<open>src/include/uhash.h\<close>\<close>

text \<open>
  The table functions of \<^verbatim>\<open>uhash.h\<close> are generated by the macro
  \<^verbatim>\<open>P_UHASH_IMPL_COMMON(T, SCOPE, uh_key, uh_val, hash_func, equal_func)\<close>.
  The embedding below is generic in the key type \<open>'k\<close> and the value type \<open>'v\<close>, and
  takes the macro parameters \<open>hash_func\<close> and \<open>equal_func\<close> as function arguments.

  Conventions of the embedding:
  \<^item> \<^verbatim>\<open>ulib_uint\<close> is the unsigned integer type of \<^verbatim>\<open>ustd.h\<close>, which is not among the
    sources; the default configuration (neither \<^verbatim>\<open>ULIB_TINY\<close> nor \<^verbatim>\<open>ULIB_HUGE\<close>, the
    \<^verbatim>\<open>#else\<close> branches of \<^verbatim>\<open>uhash.h\<close>) is 32 bits wide. Values are natural numbers and
    every arithmetic operation that can leave the range is reduced modulo \<open>2 ^ 32\<close>.
  \<^item> The flag array packs two bits per bucket into 32-bit words. The embedding keeps
    the two bits of every bucket as a pair \<open>(isempty, isdel)\<close> and drops the packing,
    so the flag list has one entry per bucket.
  \<^item> A \<^verbatim>\<open>NULL\<close> key or flag array is the empty list; the value array, whose pointer the
    code tests, is an \<open>option\<close>.
  \<^item> Allocation is a parameter: a record says which of the allocations of a call
    succeed, and what the fresh cells of a grown array hold.
  \<^item> A call has the result \<open>None\<close> when C defines no result for it: a loop that does not
    end, or an array access outside the buckets of the table.
\<close>

subsection \<open>Integers, return codes\<close>

definition ULIB_UINT_BITS :: nat where
  "ULIB_UINT_BITS = 32"

definition ULIB_UINT_MAX :: nat where
  "ULIB_UINT_MAX = 2 ^ 32 - 1"

text \<open>The cast to \<^verbatim>\<open>ulib_uint\<close>: unsigned arithmetic wraps.\<close>

definition ulib_uint :: "nat \<Rightarrow> nat" where
  "ulib_uint x = x mod 2 ^ 32"

definition UHASH_ERR :: int where "UHASH_ERR = - 1"
definition UHASH_OK :: int where "UHASH_OK = 0"
definition UHASH_PRESENT :: int where "UHASH_PRESENT = 0"
definition UHASH_INSERTED :: int where "UHASH_INSERTED = 1"

definition UHASH_INDEX_MISSING :: nat where
  "UHASH_INDEX_MISSING = ULIB_UINT_MAX"

subsection \<open>Flags\<close>

type_synonym flag = "bool \<times> bool"

definition p_uhf_isempty :: "flag list \<Rightarrow> nat \<Rightarrow> bool" where
  "p_uhf_isempty flag i = fst (flag ! i)"

definition p_uhf_isdel :: "flag list \<Rightarrow> nat \<Rightarrow> bool" where
  "p_uhf_isdel flag i = snd (flag ! i)"

definition p_uhf_iseither :: "flag list \<Rightarrow> nat \<Rightarrow> bool" where
  "p_uhf_iseither flag i = (fst (flag ! i) \<or> snd (flag ! i))"

definition p_uhf_set_isdel_false :: "flag list \<Rightarrow> nat \<Rightarrow> flag list" where
  "p_uhf_set_isdel_false flag i = flag[i := (fst (flag ! i), False)]"

definition p_uhf_set_isempty_false :: "flag list \<Rightarrow> nat \<Rightarrow> flag list" where
  "p_uhf_set_isempty_false flag i = flag[i := (False, snd (flag ! i))]"

definition p_uhf_set_isboth_false :: "flag list \<Rightarrow> nat \<Rightarrow> flag list" where
  "p_uhf_set_isboth_false flag i = flag[i := (False, False)]"

definition p_uhf_set_isdel_true :: "flag list \<Rightarrow> nat \<Rightarrow> flag list" where
  "p_uhf_set_isdel_true flag i = flag[i := (fst (flag ! i), True)]"

text \<open>
  \<^verbatim>\<open>memset(flags, 0xaa, ...)\<close>: every two-bit field becomes binary 10, that is
  \<open>isempty\<close> set and \<open>isdel\<close> clear.
\<close>

definition flags_0xaa :: "nat \<Rightarrow> flag list" where
  "flags_0xaa n = replicate n (True, False)"

text \<open>
  \<^verbatim>\<open>p_uhash_upper_bound(buckets) = (ulib_uint)(buckets * 0.77 + 0.5)\<close>. The code calls it
  with 0 or a power of two up to \<open>2 ^ 32\<close> only; for these the product with the
  double nearest to 0.77 is exact and the truncated sum is the integer below.
\<close>

definition p_uhash_upper_bound :: "nat \<Rightarrow> nat" where
  "p_uhash_upper_bound buckets = (77 * buckets + 50) div 100"

text \<open>
  Modelled from the spec: \<^verbatim>\<open>ulib_uint_next_power_2\<close> is a macro of \<^verbatim>\<open>ustd.h\<close>, which
  is not among the sources. The spec says resize "rounds \<open>new_capacity\<close> up to the next
  power of two": the result is the least power of two that is not below the
  argument. The candidates are the powers of two a \<^verbatim>\<open>ulib_uint\<close> can hold,
  \<open>2 ^ 0\<close> to \<open>2 ^ 31\<close>; above \<open>2 ^ 31\<close> there is none and the result is 0, the
  value of \<open>2 ^ 32\<close> in unsigned 32-bit arithmetic.
\<close>

primrec round_up_pow2 :: "nat \<Rightarrow> nat \<Rightarrow> nat \<Rightarrow> nat" where
  "round_up_pow2 0 p x = 0"
| "round_up_pow2 (Suc n) p x = (if x \<le> p then p else round_up_pow2 n (2 * p) x)"

definition ulib_uint_next_power_2 :: "nat \<Rightarrow> nat" where
  "ulib_uint_next_power_2 x = round_up_pow2 32 1 x"

subsection \<open>The table\<close>

record ('k, 'v) UHash =
  h_size :: nat
  h_occupied :: nat
  h_count :: nat
  h_flags :: "flag list"
  h_keys :: "'k list"
  h_vals :: "'v list option"

text \<open>
  The outcome of the allocations of one call. \<open>malloc_flags\<close>: the new flag array is
  obtained. \<open>realloc_keys\<close> and \<open>realloc_vals\<close>: \<open>None\<close> when the reallocation fails,
  otherwise the contents of the cells the array gains, by index.
\<close>

record ('k, 'v) allocs =
  malloc_flags :: bool
  realloc_keys :: "(nat \<Rightarrow> 'k) option"
  realloc_vals :: "(nat \<Rightarrow> 'v) option"

definition ulib_realloc :: "'a list \<Rightarrow> nat \<Rightarrow> (nat \<Rightarrow> 'a) \<Rightarrow> 'a list" where
  "ulib_realloc xs n fresh = take n xs @ map fresh [length xs..<n]"

definition uhash_is_map :: "('k, 'v) UHash \<Rightarrow> bool" where
  "uhash_is_map h = (h_vals h \<noteq> None \<or> h_occupied h > h_size h)"

definition p_uhash_occupied :: "('k, 'v) UHash \<Rightarrow> nat" where
  "p_uhash_occupied h = (if h_occupied h > h_size h then 0 else h_occupied h)"

definition uhash_exists :: "('k, 'v) UHash \<Rightarrow> nat \<Rightarrow> bool" where
  "uhash_exists h x = (\<not> p_uhf_iseither (h_flags h) x)"

definition uhash_count :: "('k, 'v) UHash \<Rightarrow> nat" where
  "uhash_count h = h_count h"

definition uhset :: "('k, 'v) UHash" where
  "uhset = \<lparr>h_size = 0, h_occupied = 0, h_count = 0, h_flags = [], h_keys = [],
            h_vals = None\<rparr>"

definition uhmap :: "('k, 'v) UHash" where
  "uhmap = uhset\<lparr>h_occupied := 1\<rparr>"

text \<open>
  The arrays hold at least \<open>h_size\<close> buckets. Every function below that indexes the
  arrays stays inside the first \<open>h_size\<close> buckets, so this is the condition under
  which its accesses are defined.
\<close>

definition arrays_cover :: "('k, 'v) UHash \<Rightarrow> bool" where
  "arrays_cover h =
     (h_size h \<le> length (h_flags h) \<and> h_size h \<le> length (h_keys h) \<and>
      (case h_vals h of None \<Rightarrow> True | Some vs \<Rightarrow> h_size h \<le> length vs))"

definition uhash_clear :: "('k, 'v) UHash \<Rightarrow> ('k, 'v) UHash" where
  "uhash_clear h =
     (if p_uhash_occupied h = 0 then h
      else h\<lparr>h_flags := flags_0xaa (length (h_flags h)), h_count := 0, h_occupied := 0\<rparr>)"

subsection \<open>Lookup\<close>

partial_function (option) uhash_get_loop ::
  "('k \<Rightarrow> 'k \<Rightarrow> bool) \<Rightarrow> flag list \<Rightarrow> 'k list \<Rightarrow> 'k \<Rightarrow> nat \<Rightarrow> nat \<Rightarrow> nat \<Rightarrow> nat \<Rightarrow> nat option"
where
  "uhash_get_loop equal_func flags keys key msk lst i step =
     (if \<not> p_uhf_isempty flags i \<and>
         (p_uhf_isdel flags i \<or> \<not> equal_func (keys ! i) key)
      then
        (let step' = ulib_uint (step + 1);
             i' = ulib_uint (i + step') AND msk
         in if i' = lst then Some UHASH_INDEX_MISSING
            else uhash_get_loop equal_func flags keys key msk lst i' step')
      else Some (if p_uhf_iseither flags i then UHASH_INDEX_MISSING else i))"

definition uhash_get ::
  "('k \<Rightarrow> nat) \<Rightarrow> ('k \<Rightarrow> 'k \<Rightarrow> bool) \<Rightarrow> ('k, 'v) UHash \<Rightarrow> 'k \<Rightarrow> nat option"
where
  "uhash_get hash_func equal_func h key =
     (if h_size h = 0 then Some UHASH_INDEX_MISSING
      else if \<not> arrays_cover h then None
      else
        (let msk = h_size h - 1;
             i = ulib_uint (hash_func key) AND msk
         in uhash_get_loop equal_func (h_flags h) (h_keys h) key msk i i 0))"

subsection \<open>Resize\<close>

partial_function (option) uhash_probe_empty ::
  "flag list \<Rightarrow> nat \<Rightarrow> nat \<Rightarrow> nat \<Rightarrow> nat option"
where
  "uhash_probe_empty new_flags new_msk i step =
     (if \<not> p_uhf_isempty new_flags i
      then uhash_probe_empty new_flags new_msk
             (ulib_uint (i + ulib_uint (step + 1)) AND new_msk) (ulib_uint (step + 1))
      else Some i)"

text \<open>
  The \<^verbatim>\<open>while (true)\<close> loop of the rehash: \<open>key\<close> and \<open>val\<close> are the element in hand;
  the table \<open>h\<close> carries the old flags, the keys and the values, all updated in place.
\<close>

partial_function (option) uhash_kick_out ::
  "('k \<Rightarrow> nat) \<Rightarrow> nat \<Rightarrow> ('k, 'v) UHash \<Rightarrow> flag list \<Rightarrow> 'k \<Rightarrow> 'v
     \<Rightarrow> (('k, 'v) UHash \<times> flag list) option"
where
  "uhash_kick_out hash_func new_msk h new_flags key val =
     (case uhash_probe_empty new_flags new_msk (ulib_uint (hash_func key) AND new_msk) 0 of
        None \<Rightarrow> None
      | Some i \<Rightarrow>
          (let new_flags' = p_uhf_set_isempty_false new_flags i in
           if i < h_size h \<and> \<not> p_uhf_iseither (h_flags h) i
           then
             uhash_kick_out hash_func new_msk
               (h\<lparr>h_keys := (h_keys h)[i := key],
                   h_vals := map_option (\<lambda>vs. vs[i := val]) (h_vals h),
                   h_flags := p_uhf_set_isdel_true (h_flags h) i\<rparr>)
               new_flags'
               (h_keys h ! i)
               (case h_vals h of None \<Rightarrow> val | Some vs \<Rightarrow> vs ! i)
           else
             Some (h\<lparr>h_keys := (h_keys h)[i := key],
                      h_vals := map_option (\<lambda>vs. vs[i := val]) (h_vals h)\<rparr>,
                   new_flags')))"

text \<open>The \<^verbatim>\<open>for (j = 0; j != h->_size; ++j)\<close> loop.\<close>

partial_function (option) uhash_rehash ::
  "('k \<Rightarrow> nat) \<Rightarrow> nat \<Rightarrow> nat \<Rightarrow> ('k, 'v::zero) UHash \<Rightarrow> flag list
     \<Rightarrow> (('k, 'v) UHash \<times> flag list) option"
where
  "uhash_rehash hash_func new_msk j h new_flags =
     (if j = h_size h then Some (h, new_flags)
      else if p_uhf_iseither (h_flags h) j
      then uhash_rehash hash_func new_msk (ulib_uint (j + 1)) h new_flags
      else
        (case uhash_kick_out hash_func new_msk
                (h\<lparr>h_flags := p_uhf_set_isdel_true (h_flags h) j\<rparr>) new_flags
                (h_keys h ! j)
                (case h_vals h of None \<Rightarrow> 0 | Some vs \<Rightarrow> vs ! j) of
           None \<Rightarrow> None
         | Some (h', new_flags') \<Rightarrow>
             uhash_rehash hash_func new_msk (ulib_uint (j + 1)) h' new_flags'))"

text \<open>
  The expand branch: the key array, then (for a map) the value array are
  reallocated. \<open>Inl\<close> is the early \<^verbatim>\<open>return UHASH_ERR\<close> with the table as it is at
  that point.
\<close>

definition uhash_resize_expand ::
  "('k, 'v) allocs \<Rightarrow> ('k, 'v) UHash \<Rightarrow> nat \<Rightarrow> ('k, 'v) UHash + ('k, 'v) UHash"
where
  "uhash_resize_expand al h new_size =
     (if h_size h < new_size then
        (case realloc_keys al of
           None \<Rightarrow> Inl h
         | Some fresh_keys \<Rightarrow>
             (let h1 = h\<lparr>h_keys := ulib_realloc (h_keys h) new_size fresh_keys\<rparr> in
              if uhash_is_map h1 then
                (case realloc_vals al of
                   None \<Rightarrow> Inl h1
                 | Some fresh_vals \<Rightarrow>
                     Inr (h1\<lparr>h_vals := Some (ulib_realloc
                            (case h_vals h1 of None \<Rightarrow> [] | Some vs \<Rightarrow> vs)
                            new_size fresh_vals)\<rparr>))
              else Inr h1))
      else Inr h)"

text \<open>
  The shrink branch after the rehash. The results of \<^verbatim>\<open>ulib_realloc\<close> are assigned
  unchecked: a failed reallocation leaves \<^verbatim>\<open>NULL\<close> in the field.
\<close>

definition uhash_resize_shrink ::
  "('k, 'v) allocs \<Rightarrow> ('k, 'v) UHash \<Rightarrow> nat \<Rightarrow> ('k, 'v) UHash"
where
  "uhash_resize_shrink al h new_size =
     (if h_size h > new_size then
        h\<lparr>h_keys := (case realloc_keys al of
                       None \<Rightarrow> []
                     | Some fresh_keys \<Rightarrow> ulib_realloc (h_keys h) new_size fresh_keys),
           h_vals := (case h_vals h of
                       None \<Rightarrow> None
                     | Some vs \<Rightarrow>
                         (case realloc_vals al of
                            None \<Rightarrow> None
                          | Some fresh_vals \<Rightarrow> Some (ulib_realloc vs new_size fresh_vals)))\<rparr>
      else h)"

text \<open>
  The first two statements of \<^verbatim>\<open>uhash_resize\<close>: the requested size is rounded up to a
  power of two, at least 4.
\<close>

definition uhash_resize_size :: "nat \<Rightarrow> nat" where
  "uhash_resize_size new_size =
     (let p = ulib_uint_next_power_2 new_size in if p < 4 then 4 else p)"

definition uhash_resize ::
  "('k \<Rightarrow> nat) \<Rightarrow> ('k, 'v) allocs \<Rightarrow> ('k, 'v::zero) UHash \<Rightarrow> nat
     \<Rightarrow> (int \<times> ('k, 'v) UHash) option"
where
  "uhash_resize hash_func al h new_size0 =
     (let new_size = uhash_resize_size new_size0 in
      if h_count h \<ge> p_uhash_upper_bound new_size then Some (UHASH_OK, h)
      else if \<not> malloc_flags al then Some (UHASH_ERR, h)
      else
        (case uhash_resize_expand al h new_size of
           Inl h_err \<Rightarrow> Some (UHASH_ERR, h_err)
         | Inr h1 \<Rightarrow>
             if \<not> arrays_cover h1 then None
             else
               (case uhash_rehash hash_func (new_size - 1) 0 h1 (flags_0xaa new_size) of
                  None \<Rightarrow> None
                | Some (h2, new_flags) \<Rightarrow>
                    (let h3 = uhash_resize_shrink al h2 new_size in
                     Some (UHASH_OK,
                           h3\<lparr>h_flags := new_flags, h_size := new_size,
                               h_occupied := h_count h3\<rparr>)))))"

subsection \<open>Insertion and deletion\<close>

text \<open>
  The probe loop of \<^verbatim>\<open>uhash_put\<close>. The result is \<open>(i, site, x)\<close> as the loop leaves
  them; \<open>sz\<close> is \<^verbatim>\<open>h->_size\<close>, the initial value of \<open>site\<close> and \<open>x\<close>.
\<close>

partial_function (option) uhash_put_loop ::
  "('k \<Rightarrow> 'k \<Rightarrow> bool) \<Rightarrow> flag list \<Rightarrow> 'k list \<Rightarrow> 'k \<Rightarrow> nat \<Rightarrow> nat \<Rightarrow> nat
     \<Rightarrow> nat \<Rightarrow> nat \<Rightarrow> nat \<Rightarrow> (nat \<times> nat \<times> nat) option"
where
  "uhash_put_loop equal_func flags keys key msk lst sz i step site =
     (if \<not> p_uhf_isempty flags i \<and>
         (p_uhf_isdel flags i \<or> \<not> equal_func (keys ! i) key)
      then
        (let site' = (if p_uhf_isdel flags i then i else site);
             step' = ulib_uint (step + 1);
             i' = ulib_uint (i + step') AND msk
         in if i' = lst then Some (i', site', site')
            else uhash_put_loop equal_func flags keys key msk lst sz i' step' site')
      else Some (i, site, sz))"

definition uhash_put_probe ::
  "('k \<Rightarrow> nat) \<Rightarrow> ('k \<Rightarrow> 'k \<Rightarrow> bool) \<Rightarrow> ('k, 'v) UHash \<Rightarrow> 'k \<Rightarrow> nat option"
where
  "uhash_put_probe hash_func equal_func h key =
     (let msk = h_size h - 1;
          i = ulib_uint (hash_func key) AND msk
      in
      if p_uhf_isempty (h_flags h) i then Some i
      else
        (case uhash_put_loop equal_func (h_flags h) (h_keys h) key msk i (h_size h)
                i 0 (h_size h) of
           None \<Rightarrow> None
         | Some (i', site, x) \<Rightarrow>
             Some (if x = h_size h
                   then (if p_uhf_isempty (h_flags h) i' \<and> site \<noteq> h_size h then site else i')
                   else x)))"

text \<open>
  The second half of \<^verbatim>\<open>uhash_put\<close>: the probe block and the write. With
  \<^verbatim>\<open>h->_size == 0\<close> the mask is \<^verbatim>\<open>ULIB_UINT_MAX\<close> and the flag read is outside the
  array. The result is the code, the index written through \<^verbatim>\<open>idx\<close> and the table.
\<close>

definition uhash_put_insert ::
  "('k \<Rightarrow> nat) \<Rightarrow> ('k \<Rightarrow> 'k \<Rightarrow> bool) \<Rightarrow> ('k, 'v) UHash \<Rightarrow> 'k
     \<Rightarrow> (int \<times> nat \<times> ('k, 'v) UHash) option"
where
  "uhash_put_insert hash_func equal_func h key =
     (if h_size h = 0 \<or> \<not> arrays_cover h then None
      else
        (case uhash_put_probe hash_func equal_func h key of
           None \<Rightarrow> None
         | Some x \<Rightarrow>
             (let idx = (if x = h_size h then UHASH_INDEX_MISSING else x) in
              if p_uhf_isempty (h_flags h) x then
                Some (UHASH_INSERTED, idx,
                      h\<lparr>h_keys := (h_keys h)[x := key],
                          h_flags := p_uhf_set_isboth_false (h_flags h) x,
                          h_count := ulib_uint (h_count h + 1),
                          h_occupied := ulib_uint (h_occupied h + 1)\<rparr>)
              else if p_uhf_isdel (h_flags h) x then
                Some (UHASH_INSERTED, idx,
                      h\<lparr>h_keys := (h_keys h)[x := key],
                          h_flags := p_uhf_set_isboth_false (h_flags h) x,
                          h_count := ulib_uint (h_count h + 1)\<rparr>)
              else Some (UHASH_PRESENT, idx, h))))"

text \<open>
  The first half of \<^verbatim>\<open>uhash_put\<close>: when the occupied buckets reach the upper bound the
  table is resized, to \<^verbatim>\<open>h->_size - 1\<close> if more than half of it is free of live keys
  (a rehash at the same size, which clears the deleted buckets) and to
  \<^verbatim>\<open>h->_size + 1\<close> otherwise. The result is the code of the resize, \<^verbatim>\<open>UHASH_OK\<close> when
  there is none.
\<close>

definition uhash_put_grow ::
  "('k \<Rightarrow> nat) \<Rightarrow> ('k, 'v) allocs \<Rightarrow> ('k, 'v::zero) UHash \<Rightarrow> (int \<times> ('k, 'v) UHash) option"
where
  "uhash_put_grow hash_func al h =
     (if p_uhash_occupied h \<ge> p_uhash_upper_bound (h_size h)
      then (if h_size h > ulib_uint (h_count h * 2)
            then uhash_resize hash_func al h (ulib_uint (h_size h + (2 ^ 32 - 1)))
            else uhash_resize hash_func al h (ulib_uint (h_size h + 1)))
      else Some (UHASH_OK, h))"

text \<open>\<^verbatim>\<open>uhash_put\<close>: a non-zero code of the resize is the early \<^verbatim>\<open>return UHASH_ERR\<close>.\<close>

definition uhash_put ::
  "('k \<Rightarrow> nat) \<Rightarrow> ('k \<Rightarrow> 'k \<Rightarrow> bool) \<Rightarrow> ('k, 'v) allocs \<Rightarrow> ('k, 'v::zero) UHash \<Rightarrow> 'k
     \<Rightarrow> (int \<times> nat \<times> ('k, 'v) UHash) option"
where
  "uhash_put hash_func equal_func al h key =
     (case uhash_put_grow hash_func al h of
        None \<Rightarrow> None
      | Some (r, h1) \<Rightarrow>
          if r \<noteq> 0 then Some (UHASH_ERR, UHASH_INDEX_MISSING, h1)
          else uhash_put_insert hash_func equal_func h1 key)"

text \<open>\<^verbatim>\<open>uhash_delete\<close>; an index outside the flag array has no defined result.\<close>

definition uhash_delete :: "('k, 'v) UHash \<Rightarrow> nat \<Rightarrow> ('k, 'v) UHash option" where
  "uhash_delete h x =
     (if \<not> x < length (h_flags h) then None
      else if \<not> p_uhf_iseither (h_flags h) x
      then Some (h\<lparr>h_flags := p_uhf_set_isdel_true (h_flags h) x,
                    h_count := ulib_uint (h_count h + (2 ^ 32 - 1))\<rparr>)
      else Some h)"

subsection \<open>Map wrappers\<close>

definition uhmap_get ::
  "('k \<Rightarrow> nat) \<Rightarrow> ('k \<Rightarrow> 'k \<Rightarrow> bool) \<Rightarrow> ('k, 'v) UHash \<Rightarrow> 'k \<Rightarrow> 'v \<Rightarrow> 'v option"
where
  "uhmap_get hash_func equal_func h key if_missing =
     (case uhash_get hash_func equal_func h key of
        None \<Rightarrow> None
      | Some k \<Rightarrow>
          if k = UHASH_INDEX_MISSING then Some if_missing
          else (case h_vals h of
                  None \<Rightarrow> None
                | Some vs \<Rightarrow> if k < length vs then Some (vs ! k) else None))"

text \<open>
  \<^verbatim>\<open>uhmap_set\<close> returns the code, what it writes through \<^verbatim>\<open>existing\<close> (\<open>None\<close> when
  nothing is written) and the table.
\<close>

definition uhmap_set ::
  "('k \<Rightarrow> nat) \<Rightarrow> ('k \<Rightarrow> 'k \<Rightarrow> bool) \<Rightarrow> ('k, 'v) allocs \<Rightarrow> ('k, 'v::zero) UHash \<Rightarrow> 'k \<Rightarrow> 'v
     \<Rightarrow> (int \<times> 'v option \<times> ('k, 'v) UHash) option"
where
  "uhmap_set hash_func equal_func al h key value =
     (case uhash_put hash_func equal_func al h key of
        None \<Rightarrow> None
      | Some (ret, k, h1) \<Rightarrow>
          if ret \<noteq> UHASH_ERR then
            (case h_vals h1 of
               None \<Rightarrow> None
             | Some vs \<Rightarrow>
                 if k < length vs
                 then Some (ret, (if ret = UHASH_PRESENT then Some (vs ! k) else None),
                            h1\<lparr>h_vals := Some (vs[k := value])\<rparr>)
                 else None)
          else Some (ret, None, h1))"

text \<open>
  \<^verbatim>\<open>uhset_insert_all\<close>: the table is resized to the number of items, then the items
  are inserted in turn. \<^verbatim>\<open>uhset_insert\<close> with \<^verbatim>\<open>existing == NULL\<close> is \<^verbatim>\<open>uhash_put\<close>
  with the index dropped. \<open>items\<close> holds the \<^verbatim>\<open>n\<close> elements of the array and \<open>al\<close> is
  the outcome of the allocations of each call.
\<close>

fun uhset_insert_loop ::
  "('k \<Rightarrow> nat) \<Rightarrow> ('k \<Rightarrow> 'k \<Rightarrow> bool) \<Rightarrow> ('k, 'v) allocs \<Rightarrow> ('k, 'v::zero) UHash \<Rightarrow> 'k list
     \<Rightarrow> int \<Rightarrow> (int \<times> ('k, 'v) UHash) option"
where
  "uhset_insert_loop hash_func equal_func al h [] ret = Some (ret, h)"
| "uhset_insert_loop hash_func equal_func al h (item # items) ret =
     (case uhash_put hash_func equal_func al h item of
        None \<Rightarrow> None
      | Some (l_ret, k, h') \<Rightarrow>
          if l_ret = UHASH_ERR then Some (UHASH_ERR, h')
          else uhset_insert_loop hash_func equal_func al h' items
                 (if l_ret = UHASH_INSERTED then UHASH_INSERTED else ret))"

definition uhset_insert_all ::
  "('k \<Rightarrow> nat) \<Rightarrow> ('k \<Rightarrow> 'k \<Rightarrow> bool) \<Rightarrow> ('k, 'v) allocs \<Rightarrow> ('k, 'v::zero) UHash \<Rightarrow> 'k list
     \<Rightarrow> (int \<times> ('k, 'v) UHash) option"
where
  "uhset_insert_all hash_func equal_func al h items =
     (case uhash_resize hash_func al h (length items) of
        None \<Rightarrow> None
      | Some (r, h1) \<Rightarrow>
          if r \<noteq> 0 then Some (UHASH_ERR, h1)
          else uhset_insert_loop hash_func equal_func al h1 items UHASH_PRESENT)"

subsection \<open>The probe sequence\<close>

definition tri :: "nat \<Rightarrow> nat" where
  "tri n = n * (n + 1) div 2"

definition probe :: "nat \<Rightarrow> nat \<Rightarrow> nat \<Rightarrow> nat" where
  "probe sz s n = (s + tri n) mod sz"

definition probe_cont :: "('k \<Rightarrow> 'k \<Rightarrow> bool) \<Rightarrow> flag list \<Rightarrow> 'k list \<Rightarrow> 'k \<Rightarrow> nat \<Rightarrow> bool" where
  "probe_cont equal_func flags keys key b =
     (\<not> p_uhf_isempty flags b \<and> (p_uhf_isdel flags b \<or> \<not> equal_func (keys ! b) key))"

text \<open>Probing for \<open>key\<close> from \<open>s\<close> reaches step \<open>n\<close> and stops there.\<close>

definition stops_at ::
  "('k \<Rightarrow> 'k \<Rightarrow> bool) \<Rightarrow> flag list \<Rightarrow> 'k list \<Rightarrow> 'k \<Rightarrow> nat \<Rightarrow> nat \<Rightarrow> nat \<Rightarrow> bool" where
  "stops_at equal_func flags keys key sz s n =
     (n < sz \<and> (\<forall>m<n. probe_cont equal_func flags keys key (probe sz s m)) \<and>
      \<not> probe_cont equal_func flags keys key (probe sz s n))"

definition h_probe :: "('k \<Rightarrow> nat) \<Rightarrow> ('k, 'v) UHash \<Rightarrow> 'k \<Rightarrow> nat \<Rightarrow> nat" where
  "h_probe hash_func h key n = probe (h_size h) (hash_func key mod h_size h) n"

definition h_stops ::
  "('k \<Rightarrow> nat) \<Rightarrow> ('k \<Rightarrow> 'k \<Rightarrow> bool) \<Rightarrow> ('k, 'v) UHash \<Rightarrow> 'k \<Rightarrow> nat \<Rightarrow> bool" where
  "h_stops hash_func equal_func h key n =
     stops_at equal_func (h_flags h) (h_keys h) key (h_size h) (hash_func key mod h_size h) n"

definition pow2_size :: "('k, 'v) UHash \<Rightarrow> bool" where
  "pow2_size h = (\<exists>k\<le>31. h_size h = 2 ^ k)"

subsection \<open>Well-formed tables\<close>

text \<open>
  The requirements on the macro parameters: \<open>equal_func\<close> is an equivalence and
  equal keys have equal hashes.
\<close>

definition hash_eq_ok :: "('k \<Rightarrow> nat) \<Rightarrow> ('k \<Rightarrow> 'k \<Rightarrow> bool) \<Rightarrow> bool" where
  "hash_eq_ok hash_func equal_func =
     ((\<forall>a. equal_func a a) \<and>
      (\<forall>a b. equal_func a b \<longrightarrow> equal_func b a) \<and>
      (\<forall>a b c. equal_func a b \<longrightarrow> equal_func b c \<longrightarrow> equal_func a c) \<and>
      (\<forall>a b. equal_func a b \<longrightarrow> hash_func a = hash_func b))"

definition live_buckets :: "('k, 'v) UHash \<Rightarrow> nat list" where
  "live_buckets h = filter (uhash_exists h) [0..<h_size h]"

definition used_buckets :: "('k, 'v) UHash \<Rightarrow> nat list" where
  "used_buckets h = filter (\<lambda>i. \<not> p_uhf_isempty (h_flags h) i) [0..<h_size h]"

text \<open>
  The counters agree with the flags: the capacity is 0 or a power of two from 4 to
  \<open>2 ^ 31\<close>, there is one flag per bucket, \<open>h_count\<close> is the number of live buckets
  and, once the table has buckets, \<open>h_occupied\<close> is the number of buckets that are not
  empty.
\<close>

definition counts_ok :: "('k, 'v) UHash \<Rightarrow> bool" where
  "counts_ok h =
     ((h_size h = 0 \<or> (pow2_size h \<and> 4 \<le> h_size h)) \<and>
      length (h_flags h) = h_size h \<and>
      h_count h = length (live_buckets h) \<and>
      (h_size h = 0 \<or> h_occupied h = length (used_buckets h)))"

text \<open>
  A well-formed table: the counters agree with the flags, the arrays cover the buckets,
  at least one bucket is empty, and the lookup of the key of a live bucket ends at
  that bucket.
\<close>

definition table_ok :: "('k \<Rightarrow> nat) \<Rightarrow> ('k \<Rightarrow> 'k \<Rightarrow> bool) \<Rightarrow> ('k, 'v) UHash \<Rightarrow> bool" where
  "table_ok hash_func equal_func h =
     (counts_ok h \<and> arrays_cover h \<and>
      (h_size h = 0 \<or> h_occupied h < h_size h) \<and>
      (\<forall>i<h_size h. uhash_exists h i \<longrightarrow>
         uhash_get hash_func equal_func h (h_keys h ! i) = Some i))"

text \<open>The key and, in a map, the value of bucket \<open>i\<close>.\<close>

definition entry :: "('k, 'v) UHash \<Rightarrow> nat \<Rightarrow> 'k \<times> 'v option" where
  "entry h i = (h_keys h ! i, map_option (\<lambda>vs. vs ! i) (h_vals h))"

definition entries :: "('k, 'v) UHash \<Rightarrow> ('k \<times> 'v option) set" where
  "entries h = {entry h i |i. i < h_size h \<and> uhash_exists h i}"

subsection \<open>Concrete tables\<close>

text \<open>
  The tables of the examples hold \<^verbatim>\<open>uint32_t\<close> keys and values with the hash
  \<^verbatim>\<open>uhash_int32_hash\<close>, which is the cast to \<^verbatim>\<open>ulib_uint\<close>, and the equality
  \<^verbatim>\<open>uhash_identical\<close>, as \<^verbatim>\<open>UHASH_INIT(IntHash, uint32_t, uint32_t, ...)\<close> of the tests does.
  \<open>set_0\<close> is the set that holds the key 0 in four buckets.
\<close>

definition uhash_int32_hash :: "nat \<Rightarrow> nat" where
  "uhash_int32_hash key = ulib_uint key"

definition uhash_identical :: "nat \<Rightarrow> nat \<Rightarrow> bool" where
  "uhash_identical a b = (a = b)"

definition set_0 :: "(nat, nat) UHash" where
  "set_0 = \<lparr>h_size = 4, h_occupied = 1, h_count = 1,
            h_flags = [(False, False), (True, False), (True, False), (True, False)],
            h_keys = [0, 0, 0, 0], h_vals = None\<rparr>"

text \<open>
  \<open>set_012\<close> is the set that holds 0, 1 and 2 in four buckets, each key in the bucket of
  its hash, and \<open>set_8\<close> the set that holds the key 0 in eight buckets.
\<close>

definition set_012 :: "(nat, nat) UHash" where
  "set_012 = \<lparr>h_size = 4, h_occupied = 3, h_count = 3,
              h_flags = [(False, False), (False, False), (False, False), (True, False)],
              h_keys = [0, 1, 2, 0], h_vals = None\<rparr>"

definition set_8 :: "(nat, nat) UHash" where
  "set_8 = \<lparr>h_size = 8, h_occupied = 1, h_count = 1,
            h_flags = [(False, False), (True, False), (True, False), (True, False),
                       (True, False), (True, False), (True, False), (True, False)],
            h_keys = [0, 0, 0, 0, 0, 0, 0, 0], h_vals = None\<rparr>"

text \<open>\<open>set_del\<close> is the set of four buckets in which the key 0 was inserted and deleted.\<close>

definition set_del :: "(nat, nat) UHash" where
  "set_del = \<lparr>h_size = 4, h_occupied = 1, h_count = 0,
              h_flags = [(False, True), (True, False), (True, False), (True, False)],
              h_keys = [0, 0, 0, 0], h_vals = None\<rparr>"

text \<open>
  Allocation outcomes: every allocation succeeds and new cells hold 0; the new flags
  are obtained but no reallocation succeeds.
\<close>

definition allocs_succeed :: "(nat, nat) allocs" where
  "allocs_succeed = \<lparr>malloc_flags = True, realloc_keys = Some (\<lambda>i. 0),
                      realloc_vals = Some (\<lambda>i. 0)\<rparr>"

definition realloc_fails :: "(nat, nat) allocs" where
  "realloc_fails = \<lparr>malloc_flags = True, realloc_keys = None, realloc_vals = None\<rparr>"

subsection \<open>The state of the rehash\<close>

text \<open>
  The state of the rehash: \<open>pending\<close> buckets are the live buckets of the old flags,
  whose elements are still to be moved; \<open>placed\<close> buckets are the buckets of the new
  flags that are taken.
\<close>

definition pending :: "('k, 'v) UHash \<Rightarrow> nat \<Rightarrow> bool" where
  "pending h i = (i < h_size h \<and> uhash_exists h i)"

definition placed :: "flag list \<Rightarrow> nat \<Rightarrow> bool" where
  "placed new_flags i = (i < length new_flags \<and> \<not> p_uhf_isempty new_flags i)"

definition slots :: "('k, 'v) UHash \<Rightarrow> flag list \<Rightarrow> nat set" where
  "slots h new_flags = {i. pending h i \<or> placed new_flags i}"

definition rehash_inv ::
  "('k \<Rightarrow> nat) \<Rightarrow> ('k \<Rightarrow> 'k \<Rightarrow> bool) \<Rightarrow> nat \<Rightarrow> ('k, 'v) UHash \<Rightarrow> flag list \<Rightarrow> bool" where
  "rehash_inv hash_func equal_func new_size h new_flags =
     (length new_flags = new_size \<and>
      (\<forall>i<new_size. \<not> p_uhf_isdel new_flags i) \<and>
      length (h_flags h) = h_size h \<and>
      h_size h \<le> length (h_keys h) \<and> new_size \<le> length (h_keys h) \<and>
      (case h_vals h of None \<Rightarrow> True
       | Some vs \<Rightarrow> h_size h \<le> length vs \<and> new_size \<le> length vs) \<and>
      (\<forall>i. placed new_flags i \<longrightarrow> \<not> pending h i) \<and>
      (\<forall>i\<in>slots h new_flags. \<forall>j\<in>slots h new_flags.
         equal_func (h_keys h ! i) (h_keys h ! j) \<longrightarrow> i = j) \<and>
      (\<forall>i. placed new_flags i \<longrightarrow>
         (\<exists>n<new_size. probe new_size (hash_func (h_keys h ! i) mod new_size) n = i \<and>
            (\<forall>m<n. placed new_flags
                     (probe new_size (hash_func (h_keys h ! i) mod new_size) m)))))"

text \<open>Every allocation of the call succeeds.\<close>

definition alloc_ok :: "('k, 'v) allocs \<Rightarrow> bool" where
  "alloc_ok al = (malloc_flags al \<and> realloc_keys al \<noteq> None \<and> realloc_vals al \<noteq> None)"

text \<open>
  The allocations a resize to \<open>new_size\<close> makes succeed: the new flags, and the key
  and value arrays when the capacity changes.
\<close>

definition allocs_suffice :: "('k, 'v) allocs \<Rightarrow> ('k, 'v) UHash \<Rightarrow> nat \<Rightarrow> bool" where
  "allocs_suffice al h new_size =
     (malloc_flags al \<and>
      (h_size h < new_size \<longrightarrow>
         realloc_keys al \<noteq> None \<and> (uhash_is_map h \<longrightarrow> realloc_vals al \<noteq> None)) \<and>
      (new_size < h_size h \<longrightarrow>
         realloc_keys al \<noteq> None \<and> (h_vals h \<noteq> None \<longrightarrow> realloc_vals al \<noteq> None)))"

text \<open>The allocations of the resize that \<^verbatim>\<open>uhash_put\<close> starts, if it starts one, succeed.\<close>

definition put_allocs_ok :: "('k, 'v) allocs \<Rightarrow> ('k, 'v) UHash \<Rightarrow> bool" where
  "put_allocs_ok al h =
     (p_uhash_upper_bound (h_size h) \<le> p_uhash_occupied h \<longrightarrow>
        malloc_flags al \<and>
        (h_size h \<le> ulib_uint (h_count h * 2) \<longrightarrow>
           realloc_keys al \<noteq> None \<and> (uhash_is_map h \<longrightarrow> realloc_vals al \<noteq> None)))"

text \<open>
  The table is below the largest capacity, or below its upper bound: an insertion
  then finds the load bound restored by a resize, or not reached.
\<close>

definition has_room :: "('k, 'v) UHash \<Rightarrow> bool" where
  "has_room h = (h_size h < 2 ^ 31 \<or> p_uhash_occupied h < p_uhash_upper_bound (h_size h))"

text \<open>
  The capacity \<^verbatim>\<open>uhash_put\<close> leaves: below the upper bound the table is not resized; at
  the bound it is rehashed in place when less than half of the capacity is live, and
  doubled (from 0: to 4) otherwise.
\<close>

definition put_size :: "('k, 'v) UHash \<Rightarrow> nat" where
  "put_size h =
     (if p_uhash_occupied h < p_uhash_upper_bound (h_size h) then h_size h
      else if h_count h * 2 < h_size h then h_size h
      else if h_size h = 0 then 4 else 2 * h_size h)"

subsection \<open>Sequences of operations\<close>

text \<open>
  A sequence of \<open>uhmap_set\<close> calls that all succeed: each call comes with the outcome
  of its allocations, its key and its value. The result is \<open>None\<close> when a call has no
  defined result or returns \<open>UHASH_ERR\<close>.
\<close>

fun uhmap_set_all ::
  "('k \<Rightarrow> nat) \<Rightarrow> ('k \<Rightarrow> 'k \<Rightarrow> bool) \<Rightarrow> ('k, 'v::zero) UHash
     \<Rightarrow> (('k, 'v) allocs \<times> 'k \<times> 'v) list \<Rightarrow> ('k, 'v) UHash option"
where
  "uhmap_set_all hash_func equal_func h [] = Some h"
| "uhmap_set_all hash_func equal_func h ((al, key, value) # ops) =
     (case uhmap_set hash_func equal_func al h key value of
        None \<Rightarrow> None
      | Some (ret, ex, h') \<Rightarrow>
          if ret = UHASH_ERR then None else uhmap_set_all hash_func equal_func h' ops)"

text \<open>The value of the last call of the sequence whose key is equal to \<open>k\<close>.\<close>

fun last_set ::
  "('k \<Rightarrow> 'k \<Rightarrow> bool) \<Rightarrow> (('k, 'v) allocs \<times> 'k \<times> 'v) list \<Rightarrow> 'k \<Rightarrow> 'v option"
where
  "last_set equal_func [] k = None"
| "last_set equal_func ((al, key, value) # ops) k =
     (case last_set equal_func ops k of
        Some v \<Rightarrow> Some v
      | None \<Rightarrow> if equal_func key k then Some value else None)"

text \<open>
  The reallocations of a shrinking resize succeed. The code does not check them
  (see \<open>uhash_resize_shrink\<close>).
\<close>

definition shrink_allocs_ok :: "('k, 'v) allocs \<Rightarrow> ('k, 'v) UHash \<Rightarrow> nat \<Rightarrow> bool" where
  "shrink_allocs_ok al h new_size =
     (uhash_resize_size new_size < h_size h \<longrightarrow>
        realloc_keys al \<noteq> None \<and> (h_vals h \<noteq> None \<longrightarrow> realloc_vals al \<noteq> None))"

text \<open>
  The tables that the operations build from a fresh set or map. Insertions are made
  while the table has room in the sense of \<open>has_room\<close>, and the reallocations of a
  shrinking resize succeed; any other allocation may fail.
\<close>

inductive reachable ::
  "('k \<Rightarrow> nat) \<Rightarrow> ('k \<Rightarrow> 'k \<Rightarrow> bool) \<Rightarrow> ('k, 'v::zero) UHash \<Rightarrow> bool"
  for hash_func :: "'k \<Rightarrow> nat" and equal_func :: "'k \<Rightarrow> 'k \<Rightarrow> bool"
where
  fresh_set: "reachable hash_func equal_func uhset"
| fresh_map: "reachable hash_func equal_func uhmap"
| put: "reachable hash_func equal_func h \<Longrightarrow> has_room h \<Longrightarrow>
        uhash_put hash_func equal_func al h key = Some (ret, x, h') \<Longrightarrow>
        reachable hash_func equal_func h'"
| set: "reachable hash_func equal_func h \<Longrightarrow> has_room h \<Longrightarrow> uhash_is_map h \<Longrightarrow>
        uhmap_set hash_func equal_func al h key value = Some (ret, ex, h') \<Longrightarrow>
        reachable hash_func equal_func h'"
| delete: "reachable hash_func equal_func h \<Longrightarrow> uhash_delete h x = Some h' \<Longrightarrow>
        reachable hash_func equal_func h'"
| resize: "reachable hash_func equal_func h \<Longrightarrow> shrink_allocs_ok al h n \<Longrightarrow>
        uhash_resize hash_func al h n = Some (ret, h') \<Longrightarrow>
        reachable hash_func equal_func h'"
| clear: "reachable hash_func equal_func h \<Longrightarrow> reachable hash_func equal_func (uhash_clear h)"

section \<open>Lookup: the probe sequence and its end\<close>

lemma tri_0: "tri 0 = 0" by (simp add: tri_def)

lemma tri_Suc: "tri (Suc n) = tri n + Suc n"
proof -
  have "Suc n * (Suc n + 1) = n * (n + 1) + 2 * Suc n" by simp
  then show ?thesis unfolding tri_def by (metis div_mult_self4 add.commute zero_neq_numeral)
qed

lemma two_tri: "2 * tri n = n * (n + 1)"
  by (induction n) (simp_all add: tri_0 tri_Suc)

lemma ulib_uint_and_mask:
  assumes "k \<le> 32"
  shows "ulib_uint x AND (2 ^ k - 1) = x mod 2 ^ k"
proof -
  have "ulib_uint x = take_bit 32 x"
    by (simp add: ulib_uint_def take_bit_eq_mod)
  moreover have "(2::nat) ^ k - 1 = mask k"
    by (simp add: mask_eq_exp_minus_1)
  ultimately have "ulib_uint x AND (2 ^ k - 1) = take_bit k (take_bit 32 x)"
    by (simp only: take_bit_eq_mask)
  also have "\<dots> = take_bit k x" using assms by (simp add: min_def)
  finally show ?thesis by (simp only: take_bit_eq_mod)
qed

lemma probe_less: "0 < sz \<Longrightarrow> probe sz s n < sz"
  by (simp add: probe_def)

lemma probe_0: "s < sz \<Longrightarrow> probe sz s 0 = s"
  by (simp add: probe_def tri_0)

lemma probe_Suc: "probe sz s (Suc n) = (probe sz s n + Suc n) mod sz"
proof -
  have "probe sz s (Suc n) = (s + tri n + Suc n) mod sz"
    by (simp add: probe_def tri_Suc add.assoc)
  also have "\<dots> = ((s + tri n) mod sz + Suc n) mod sz"
    by (rule mod_add_left_eq[symmetric])
  finally show ?thesis by (simp only: probe_def)
qed

lemma probe_step:
  assumes "sz = 2 ^ k" "k \<le> 31" "Suc n < 2 * sz"
  shows "ulib_uint (probe sz s n + ulib_uint (n + 1)) AND (sz - 1) = probe sz s (Suc n)"
proof -
  have "(2::nat) * 2 ^ k \<le> 2 ^ 32"
    using assms(2) power_increasing[of "Suc k" 32 "2::nat"] by simp
  then have "n + 1 < 2 ^ 32" using assms by simp
  then have "ulib_uint (n + 1) = Suc n" by (simp add: ulib_uint_def)
  then show ?thesis using assms ulib_uint_and_mask[of k] by (simp add: probe_Suc)
qed

lemma probe_inj:
  assumes sz: "sz = 2 ^ k" and a: "a < sz" and b: "b < sz"
    and eq: "probe sz s a = probe sz s b"
  shows "a = b"
proof (rule ccontr)
  assume ne: "a \<noteq> b"
  { fix x y :: nat assume xy: "x < y" "y < sz" and e: "probe sz s x = probe sz s y"
    have "x * (x + 1) \<le> y * (y + 1)" using xy by (intro mult_le_mono) simp_all
    then have le: "tri x \<le> tri y" unfolding tri_def by (rule div_le_mono)
    have "(s + tri y) mod sz = (s + tri x) mod sz" using e by (simp add: probe_def)
    then have "sz dvd (s + tri y) - (s + tri x)"
      using le by (simp add: mod_eq_dvd_iff_nat)
    then have "sz dvd tri y - tri x" by simp
    then have "2 * sz dvd 2 * (tri y - tri x)" by simp
    moreover have tt: "2 * (tri y - tri x) = (y - x) * (x + y + 1)"
    proof -
      have "2 * (tri y - tri x) = y * (y + 1) - x * (x + 1)"
        by (simp add: diff_mult_distrib2 two_tri)
      also have "\<dots> = (y - x) * (x + y + 1)"
      proof -
        obtain d where d: "y = x + d" using xy(1) by (metis less_imp_add_positive)
        show ?thesis unfolding d by (simp add: algebra_simps)
      qed
      finally show ?thesis .
    qed
    ultimately have dv: "2 ^ Suc k dvd (y - x) * (x + y + 1)" using sz by simp
    have "odd (y - x) \<or> odd (x + y + 1)"
    proof -
      obtain d where d: "y = x + d" using xy(1) by (metis less_imp_add_positive)
      show ?thesis unfolding d by simp
    qed
    then have False
    proof
      assume o: "odd (y - x)"
      then have "coprime (2 ^ Suc k) (y - x)" by simp
      then have "2 ^ Suc k dvd x + y + 1"
        using dv coprime_dvd_mult_left_iff[of "2 ^ Suc k" "y - x" "x + y + 1"]
        by (simp only: mult.commute)
      moreover have "x + y + 1 < 2 ^ Suc k" using xy sz by simp
      ultimately show False by (simp add: dvd_imp_le nat_dvd_not_less)
    next
      assume o: "odd (x + y + 1)"
      then have "coprime (2 ^ Suc k) (x + y + 1)" by simp
      then have "2 ^ Suc k dvd y - x"
        using dv coprime_dvd_mult_right_iff[of "2 ^ Suc k" "x + y + 1" "y - x"]
        by (simp only: mult.commute)
      moreover have "y - x < 2 ^ Suc k" "0 < y - x" using xy sz by simp_all
      ultimately show False by (simp add: nat_dvd_not_less)
    qed }
  note key = this
  from ne consider "a < b" | "b < a" by linarith
  then show False using key[of a b] key[of b a] a b eq by cases simp_all
qed

lemma probe_surj:
  assumes sz: "sz = 2 ^ k" and b: "b < sz"
  shows "\<exists>n<sz. probe sz s n = b"
proof -
  have inj: "inj_on (probe sz s) {..<sz}"
    using probe_inj[OF sz] by (auto simp: inj_on_def)
  have sub: "probe sz s ` {..<sz} \<subseteq> {..<sz}"
    using sz by (auto simp: probe_less)
  have "card (probe sz s ` {..<sz}) = card {..<sz}" using inj by (rule card_image)
  then have "probe sz s ` {..<sz} = {..<sz}" using sub by (simp add: card_subset_eq)
  then show ?thesis using b by (metis imageE lessThan_iff)
qed

lemma probe_return:
  assumes "0 < sz" "s < sz"
  shows "probe sz s (2 * sz - 1) = s"
proof -
  have "2 * tri (2 * sz - 1) = 2 * ((2 * sz - 1) * sz)"
    using assms by (simp add: two_tri algebra_simps)
  then have "tri (2 * sz - 1) = (2 * sz - 1) * sz" by simp
  then show ?thesis using assms by (simp add: probe_def)
qed

lemma pow2_bound: "k \<le> 31 \<Longrightarrow> (2::nat) * 2 ^ k \<le> 2 ^ 32"
  using power_increasing[of "Suc k" 32 "2::nat"] by simp

lemma ulib_uint_id: "x < 2 ^ 32 \<Longrightarrow> ulib_uint x = x"
  by (simp add: ulib_uint_def)

lemma step_next:
  assumes "sz = 2 ^ k" "k \<le> 31" "Suc n < 2 * sz"
  shows "ulib_uint (n + 1) = Suc n"
    and "ulib_uint (probe sz s n + Suc n) AND (sz - 1) = probe sz s (Suc n)"
proof -
  have "Suc n < 2 ^ 32" using assms pow2_bound[of k] by simp
  then show u: "ulib_uint (n + 1) = Suc n" by (simp add: ulib_uint_id)
  show "ulib_uint (probe sz s n + Suc n) AND (sz - 1) = probe sz s (Suc n)"
    using probe_step[OF assms, of s] u by simp
qed

lemma start_index:
  assumes "sz = 2 ^ k" "k \<le> 31"
  shows "ulib_uint x AND (sz - 1) = x mod sz" "ulib_uint x AND (sz - 1) < sz"
  using assms ulib_uint_and_mask[of k x] by simp_all

lemma get_loop_cont:
  "probe_cont equal_func flags keys key i \<Longrightarrow>
   uhash_get_loop equal_func flags keys key msk lst i step =
     (if ulib_uint (i + ulib_uint (step + 1)) AND msk = lst then Some UHASH_INDEX_MISSING
      else uhash_get_loop equal_func flags keys key msk lst
             (ulib_uint (i + ulib_uint (step + 1)) AND msk) (ulib_uint (step + 1)))"
  by (subst uhash_get_loop.simps) (simp only: probe_cont_def Let_def if_True simp_thms)

lemma get_loop_stop:
  "\<not> probe_cont equal_func flags keys key i \<Longrightarrow>
   uhash_get_loop equal_func flags keys key msk lst i step =
     Some (if p_uhf_iseither flags i then UHASH_INDEX_MISSING else i)"
  by (subst uhash_get_loop.simps) (simp only: probe_cont_def Let_def if_False simp_thms)

lemma get_loop_run:
  assumes sz: "sz = 2 ^ k" "k \<le> 31"
    and nN: "n \<le> N" "N < 2 * sz"
    and run: "\<And>m. n \<le> m \<Longrightarrow> m < N \<Longrightarrow>
               probe_cont equal_func flags keys key (probe sz s m) \<and> probe sz s (Suc m) \<noteq> s"
  shows "uhash_get_loop equal_func flags keys key (sz - 1) s (probe sz s n) n =
         uhash_get_loop equal_func flags keys key (sz - 1) s (probe sz s N) N"
  using nN(1) run
proof (induction rule: inc_induct)
  case base
  show ?case by simp
next
  case (step m)
  have c: "probe_cont equal_func flags keys key (probe sz s m)" and ne: "probe sz s (Suc m) \<noteq> s"
    using step.prems[of m] step.hyps by simp_all
  have sm: "Suc m < 2 * sz" using step.hyps nN(2) by simp
  have "uhash_get_loop equal_func flags keys key (sz - 1) s (probe sz s m) m =
        uhash_get_loop equal_func flags keys key (sz - 1) s (probe sz s (Suc m)) (Suc m)"
    using ne step_next(1)[OF sz sm] step_next(2)[OF sz sm, of s]
    by (simp add: get_loop_cont[OF c])
  also have "\<dots> = uhash_get_loop equal_func flags keys key (sz - 1) s (probe sz s N) N"
    using step.prems by (intro step.IH) simp_all
  finally show ?case .
qed

lemma get_loop_stops:
  assumes sz: "sz = 2 ^ k" "k \<le> 31" and s: "s < sz"
    and st: "stops_at equal_func flags keys key sz s n"
  shows "uhash_get_loop equal_func flags keys key (sz - 1) s s 0 =
         Some (if p_uhf_iseither flags (probe sz s n) then UHASH_INDEX_MISSING else probe sz s n)"
proof -
  have n: "n < sz" and c: "\<And>m. m < n \<Longrightarrow> probe_cont equal_func flags keys key (probe sz s m)"
    and nc: "\<not> probe_cont equal_func flags keys key (probe sz s n)"
    using st by (simp_all add: stops_at_def)
  have ne: "probe sz s (Suc m) \<noteq> s" if "m < n" for m
  proof
    assume a: "probe sz s (Suc m) = s"
    have e: "probe sz s (Suc m) = probe sz s 0" unfolding probe_0[OF s] by (rule a)
    have l1: "Suc m < sz" using that n by simp
    have l2: "0 < sz" using s by simp
    from probe_inj[OF sz(1) l1 l2 e] show False by simp
  qed
  have "uhash_get_loop equal_func flags keys key (sz - 1) s (probe sz s 0) 0 =
        uhash_get_loop equal_func flags keys key (sz - 1) s (probe sz s n) n"
    using n c ne by (intro get_loop_run[OF sz]) simp_all
  also have "\<dots> = Some (if p_uhf_iseither flags (probe sz s n) then UHASH_INDEX_MISSING
                         else probe sz s n)"
    by (rule get_loop_stop[OF nc])
  finally show ?thesis using s by (simp add: probe_0)
qed

lemma get_loop_full:
  assumes sz: "sz = 2 ^ k" "k \<le> 31" and s: "s < sz"
    and full: "\<And>b. b < sz \<Longrightarrow> probe_cont equal_func flags keys key b"
  shows "uhash_get_loop equal_func flags keys key (sz - 1) s s 0 = Some UHASH_INDEX_MISSING"
proof -
  have pos: "0 < sz" using s by simp
  define N where "N = (LEAST n. 0 < n \<and> probe sz s n = s)"
  have ex: "0 < 2 * sz - 1 \<and> probe sz s (2 * sz - 1) = s"
    using pos s probe_return[of sz s] by simp
  have N: "0 < N" "probe sz s N = s"
    using LeastI[of "\<lambda>n. 0 < n \<and> probe sz s n = s", OF ex] by (simp_all add: N_def)
  have Nle: "N \<le> 2 * sz - 1"
    unfolding N_def using ex by (rule Least_le)
  have least: "probe sz s m \<noteq> s" if "0 < m" "m < N" for m
    using not_less_Least[of m "\<lambda>n. 0 < n \<and> probe sz s n = s"] that by (simp add: N_def)
  obtain M where M: "N = Suc M" using N(1) by (cases N) simp_all
  have "uhash_get_loop equal_func flags keys key (sz - 1) s (probe sz s 0) 0 =
        uhash_get_loop equal_func flags keys key (sz - 1) s (probe sz s M) M"
  proof (rule get_loop_run[OF sz])
    show "0 \<le> M" by simp
    show "M < 2 * sz" using Nle M pos by simp
    fix m assume "0 \<le> m" "m < M"
    then show "probe_cont equal_func flags keys key (probe sz s m) \<and> probe sz s (Suc m) \<noteq> s"
      using full[of "probe sz s m"] pos least[of "Suc m"] M by (simp add: probe_less)
  qed
  also have "\<dots> = Some UHASH_INDEX_MISSING"
  proof -
    have sm: "Suc M < 2 * sz" using Nle M pos by simp
    have c: "probe_cont equal_func flags keys key (probe sz s M)"
      using full pos by (simp add: probe_less)
    show ?thesis
      using step_next(1)[OF sz sm] step_next(2)[OF sz sm, of s] N(2) M
      by (simp add: get_loop_cont[OF c])
  qed
  finally show ?thesis using s by (simp add: probe_0)
qed

text \<open>Either the probe sequence stops within the first \<open>sz\<close> steps or every bucket continues.\<close>

lemma stops_or_full:
  assumes sz: "sz = 2 ^ k"
  shows "(\<exists>n. stops_at equal_func flags keys key sz s n) \<or>
         (\<forall>b<sz. probe_cont equal_func flags keys key b)"
proof (cases "\<exists>n<sz. \<not> probe_cont equal_func flags keys key (probe sz s n)")
  case True
  define P where "P n \<longleftrightarrow> n < sz \<and> \<not> probe_cont equal_func flags keys key (probe sz s n)" for n
  from True have "\<exists>n. P n" unfolding P_def by blast
  then obtain n where n: "P n" and least: "\<forall>m<n. \<not> P m"
    unfolding exists_least_iff[of P] by blast
  have "stops_at equal_func flags keys key sz s n"
    unfolding stops_at_def
  proof (intro conjI allI impI)
    show "n < sz" using n by (simp add: P_def)
    show "\<not> probe_cont equal_func flags keys key (probe sz s n)" using n by (simp add: P_def)
    fix m assume m: "m < n"
    then have "\<not> P m" using least by blast
    moreover have "m < sz" using m n by (simp add: P_def)
    ultimately show "probe_cont equal_func flags keys key (probe sz s m)" by (simp add: P_def)
  qed
  then show ?thesis by blast
next
  case False
  have "probe_cont equal_func flags keys key b" if "b < sz" for b
    using probe_surj[OF sz that, of s] False by blast
  then show ?thesis by blast
qed

lemma stops_at_unique:
  "stops_at equal_func flags keys key sz s n \<Longrightarrow> stops_at equal_func flags keys key sz s n'
     \<Longrightarrow> n = n'"
  unfolding stops_at_def by (meson linorder_neqE_nat)

lemma pow2_size_pos: "pow2_size h \<Longrightarrow> 0 < h_size h"
  by (auto simp: pow2_size_def)

lemma pow2_size_le: "pow2_size h \<Longrightarrow> h_size h \<le> 2 ^ 31"
proof -
  assume "pow2_size h"
  then obtain k where k: "k \<le> 31" "h_size h = 2 ^ k" by (auto simp: pow2_size_def)
  have "(2::nat) ^ k \<le> 2 ^ 31" using k(1) by (rule power_increasing) simp
  then show ?thesis using k(2) by simp
qed

lemma h_probe_less: "pow2_size h \<Longrightarrow> h_probe hash_func h key n < h_size h"
  by (simp add: h_probe_def probe_less pow2_size_pos)

lemma missing_not_index: "pow2_size h \<Longrightarrow> i < h_size h \<Longrightarrow> i \<noteq> UHASH_INDEX_MISSING"
  using pow2_size_le[of h] by (simp add: UHASH_INDEX_MISSING_def ULIB_UINT_MAX_def)

lemma uhash_get_stops:
  assumes p: "pow2_size h" and a: "arrays_cover h"
    and st: "h_stops hash_func equal_func h key n"
  shows "uhash_get hash_func equal_func h key =
         Some (if p_uhf_iseither (h_flags h) (h_probe hash_func h key n) then UHASH_INDEX_MISSING
               else h_probe hash_func h key n)"
proof -
  obtain k where k: "k \<le> 31" "h_size h = 2 ^ k" using p by (auto simp: pow2_size_def)
  have s: "hash_func key mod h_size h < h_size h" using k by simp
  show ?thesis
    using get_loop_stops[OF k(2) k(1) s st[unfolded h_stops_def]] a k
      start_index(1)[OF k(2) k(1), of "hash_func key"]
    by (simp add: uhash_get_def Let_def h_probe_def)
qed

lemma uhash_get_full:
  assumes p: "pow2_size h" and a: "arrays_cover h"
    and full: "\<And>b. b < h_size h \<Longrightarrow> probe_cont equal_func (h_flags h) (h_keys h) key b"
  shows "uhash_get hash_func equal_func h key = Some UHASH_INDEX_MISSING"
proof -
  obtain k where k: "k \<le> 31" "h_size h = 2 ^ k" using p by (auto simp: pow2_size_def)
  have s: "hash_func key mod h_size h < h_size h" using k by simp
  show ?thesis
    using get_loop_full[OF k(2) k(1) s full] a k
      start_index(1)[OF k(2) k(1), of "hash_func key"]
    by (simp add: uhash_get_def Let_def)
qed

lemma h_stops_or_full:
  assumes p: "pow2_size h"
  shows "(\<exists>n. h_stops hash_func equal_func h key n) \<or>
         (\<forall>b<h_size h. probe_cont equal_func (h_flags h) (h_keys h) key b)"
proof -
  obtain k where k: "k \<le> 31" "h_size h = 2 ^ k" using p by (auto simp: pow2_size_def)
  show ?thesis unfolding h_stops_def by (rule stops_or_full[OF k(2)])
qed

text \<open>The result of a lookup, in every table whose size is a power of two.\<close>

lemma uhash_get_result:
  assumes p: "pow2_size h" and a: "arrays_cover h"
  shows "\<exists>r. uhash_get hash_func equal_func h key = Some r \<and>
           (r = UHASH_INDEX_MISSING \<or>
            (\<exists>n. h_stops hash_func equal_func h key n \<and> r = h_probe hash_func h key n \<and>
                 \<not> p_uhf_iseither (h_flags h) r \<and> equal_func (h_keys h ! r) key))"
proof -
  from h_stops_or_full[OF p, of hash_func equal_func key]
  show ?thesis
  proof
    assume "\<exists>n. h_stops hash_func equal_func h key n"
    then obtain n where n: "h_stops hash_func equal_func h key n" ..
    let ?b = "h_probe hash_func h key n"
    have nc: "\<not> probe_cont equal_func (h_flags h) (h_keys h) key ?b"
      using n by (simp add: h_stops_def stops_at_def h_probe_def)
    show ?thesis
    proof (cases "p_uhf_iseither (h_flags h) ?b")
      case True
      then show ?thesis using uhash_get_stops[OF p a n] by simp
    next
      case False
      then have "equal_func (h_keys h ! ?b) key"
        using nc by (auto simp: probe_cont_def p_uhf_iseither_def p_uhf_isempty_def p_uhf_isdel_def)
      then show ?thesis using uhash_get_stops[OF p a n] False n by auto
    qed
  next
    assume "\<forall>b<h_size h. probe_cont equal_func (h_flags h) (h_keys h) key b"
    then show ?thesis using uhash_get_full[OF p a, of equal_func key hash_func] by simp
  qed
qed

section \<open>Insertion: the probe of \<open>uhash_put\<close>\<close>

lemma put_loop_cont:
  "probe_cont equal_func flags keys key i \<Longrightarrow>
   uhash_put_loop equal_func flags keys key msk lst sz i step site =
     (if ulib_uint (i + ulib_uint (step + 1)) AND msk = lst
      then Some (ulib_uint (i + ulib_uint (step + 1)) AND msk,
                 (if p_uhf_isdel flags i then i else site),
                 (if p_uhf_isdel flags i then i else site))
      else uhash_put_loop equal_func flags keys key msk lst sz
             (ulib_uint (i + ulib_uint (step + 1)) AND msk) (ulib_uint (step + 1))
             (if p_uhf_isdel flags i then i else site))"
  by (subst uhash_put_loop.simps) (simp only: probe_cont_def Let_def if_True simp_thms)

lemma put_loop_stop:
  "\<not> probe_cont equal_func flags keys key i \<Longrightarrow>
   uhash_put_loop equal_func flags keys key msk lst sz i step site = Some (i, site, sz)"
  by (subst uhash_put_loop.simps) (simp only: probe_cont_def Let_def if_False simp_thms)

lemma put_loop_run:
  assumes sz: "sz = 2 ^ k" "k \<le> 31"
    and nN: "n \<le> N" "N < 2 * sz"
    and run: "\<And>m. n \<le> m \<Longrightarrow> m < N \<Longrightarrow>
               probe_cont equal_func flags keys key (probe sz s m) \<and> probe sz s (Suc m) \<noteq> s"
  shows "\<exists>site'. uhash_put_loop equal_func flags keys key (sz - 1) s sz0 (probe sz s n) n site =
                 uhash_put_loop equal_func flags keys key (sz - 1) s sz0 (probe sz s N) N site' \<and>
                 (site' = site \<or> (\<exists>m. n \<le> m \<and> m < N \<and> site' = probe sz s m \<and>
                                     p_uhf_isdel flags (probe sz s m)))"
  using nN(1) run
proof (induction arbitrary: site rule: inc_induct)
  case base
  show ?case by blast
next
  case (step m)
  have c: "probe_cont equal_func flags keys key (probe sz s m)" and ne: "probe sz s (Suc m) \<noteq> s"
    using step.prems[of m] step.hyps by simp_all
  have sm: "Suc m < 2 * sz" using step.hyps nN(2) by simp
  let ?site1 = "if p_uhf_isdel flags (probe sz s m) then probe sz s m else site"
  have e1: "uhash_put_loop equal_func flags keys key (sz - 1) s sz0 (probe sz s m) m site =
        uhash_put_loop equal_func flags keys key (sz - 1) s sz0 (probe sz s (Suc m)) (Suc m) ?site1"
    using ne step_next(1)[OF sz sm] step_next(2)[OF sz sm, of s]
    by (simp add: put_loop_cont[OF c])
  have "\<exists>site'. uhash_put_loop equal_func flags keys key (sz - 1) s sz0 (probe sz s (Suc m)) (Suc m) ?site1 =
                 uhash_put_loop equal_func flags keys key (sz - 1) s sz0 (probe sz s N) N site' \<and>
                 (site' = ?site1 \<or> (\<exists>m'. Suc m \<le> m' \<and> m' < N \<and> site' = probe sz s m' \<and>
                                     p_uhf_isdel flags (probe sz s m')))"
    using step.prems by (intro step.IH) simp_all
  then obtain site' where
    e2: "uhash_put_loop equal_func flags keys key (sz - 1) s sz0 (probe sz s (Suc m)) (Suc m) ?site1 =
         uhash_put_loop equal_func flags keys key (sz - 1) s sz0 (probe sz s N) N site'"
    and s': "site' = ?site1 \<or> (\<exists>m'. Suc m \<le> m' \<and> m' < N \<and> site' = probe sz s m' \<and>
                                     p_uhf_isdel flags (probe sz s m'))"
    by blast
  have "site' = site \<or> (\<exists>m'. m \<le> m' \<and> m' < N \<and> site' = probe sz s m' \<and>
                                     p_uhf_isdel flags (probe sz s m'))"
  proof (cases "site' = ?site1")
    case True
    then show ?thesis using step.hyps by (cases "p_uhf_isdel flags (probe sz s m)") auto
  next
    case False
    then obtain m' where "Suc m \<le> m'" "m' < N" "site' = probe sz s m'"
        "p_uhf_isdel flags (probe sz s m')" using s' by blast
    then show ?thesis using Suc_leD by blast
  qed
  then show ?case using e1 e2 by auto
qed

lemma put_probe_stops:
  assumes p: "pow2_size h"
    and st: "h_stops hash_func equal_func h key n"
  shows "\<exists>x. uhash_put_probe hash_func equal_func h key = Some x \<and>
           (if p_uhf_isempty (h_flags h) (h_probe hash_func h key n)
            then x = h_probe hash_func h key n \<or>
                 (\<exists>m<n. x = h_probe hash_func h key m \<and> p_uhf_isdel (h_flags h) x)
            else x = h_probe hash_func h key n)"
proof -
  obtain k where k: "k \<le> 31" "h_size h = 2 ^ k" using p by (auto simp: pow2_size_def)
  let ?s = "hash_func key mod h_size h"
  let ?sz = "h_size h"
  have s: "?s < ?sz" using k by simp
  have start: "ulib_uint (hash_func key) AND (?sz - 1) = ?s"
    using start_index(1)[OF k(2) k(1)] by simp
  have n: "n < ?sz"
    and c: "\<And>m. m < n \<Longrightarrow> probe_cont equal_func (h_flags h) (h_keys h) key (probe ?sz ?s m)"
    and nc: "\<not> probe_cont equal_func (h_flags h) (h_keys h) key (probe ?sz ?s n)"
    using st by (simp_all add: h_stops_def stops_at_def)
  show ?thesis
  proof (cases "p_uhf_isempty (h_flags h) ?s")
    case True
    have "n = 0"
    proof (rule ccontr)
      assume "n \<noteq> 0"
      then have "probe_cont equal_func (h_flags h) (h_keys h) key (probe ?sz ?s 0)"
        using c[of 0] by simp
      then show False using True s by (simp add: probe_0 probe_cont_def)
    qed
    then show ?thesis using True s start
      by (simp add: uhash_put_probe_def Let_def h_probe_def probe_0)
  next
    case False
    have ne: "probe ?sz ?s (Suc m) \<noteq> ?s" if "m < n" for m
    proof
      assume a: "probe ?sz ?s (Suc m) = ?s"
      have e: "probe ?sz ?s (Suc m) = probe ?sz ?s 0" unfolding probe_0[OF s] by (rule a)
      have l1: "Suc m < ?sz" using that n by simp
      have l2: "0 < ?sz" using s by simp
      from probe_inj[OF k(2) l1 l2 e] show False by simp
    qed
    have "\<exists>site'. uhash_put_loop equal_func (h_flags h) (h_keys h) key (?sz - 1) ?s ?sz
                     (probe ?sz ?s 0) 0 ?sz =
                 uhash_put_loop equal_func (h_flags h) (h_keys h) key (?sz - 1) ?s ?sz
                     (probe ?sz ?s n) n site' \<and>
                 (site' = ?sz \<or> (\<exists>m. 0 \<le> m \<and> m < n \<and> site' = probe ?sz ?s m \<and>
                                     p_uhf_isdel (h_flags h) (probe ?sz ?s m)))"
      using n c ne by (intro put_loop_run[OF k(2) k(1)]) simp_all
    then obtain site' where
      run: "uhash_put_loop equal_func (h_flags h) (h_keys h) key (?sz - 1) ?s ?sz ?s 0 ?sz =
            Some (probe ?sz ?s n, site', ?sz)"
      and site': "site' = ?sz \<or> (\<exists>m<n. site' = probe ?sz ?s m \<and>
                                     p_uhf_isdel (h_flags h) (probe ?sz ?s m))"
      using put_loop_stop[OF nc] s by (auto simp: probe_0)
    have lt: "probe ?sz ?s m < ?sz" for m using s by (simp add: probe_less)
    show ?thesis
    proof (cases "site' = ?sz")
      case True
      then show ?thesis using False start run
        by (simp add: uhash_put_probe_def Let_def h_probe_def)
    next
      case sne: False
      then obtain m where m: "m < n" "site' = probe ?sz ?s m"
          "p_uhf_isdel (h_flags h) (probe ?sz ?s m)" using site' by blast
      show ?thesis
      proof (cases "p_uhf_isempty (h_flags h) (probe ?sz ?s n)")
        case True
        then have "uhash_put_probe hash_func equal_func h key = Some site'"
          using False start run sne by (simp add: uhash_put_probe_def Let_def)
        then show ?thesis using True m by (auto simp: h_probe_def)
      next
        case ne': False
        then have "uhash_put_probe hash_func equal_func h key = Some (probe ?sz ?s n)"
          using False start run by (simp add: uhash_put_probe_def Let_def)
        then show ?thesis using ne' by (simp add: h_probe_def)
      qed
    qed
  qed
qed

section \<open>Lookup in well-formed tables\<close>

lemma hash_eq_okD:
  assumes "hash_eq_ok hash_func equal_func"
  shows "equal_func a a"
    and "equal_func a b \<Longrightarrow> equal_func b a"
    and "equal_func a b \<Longrightarrow> equal_func b c \<Longrightarrow> equal_func a c"
    and "equal_func a b \<Longrightarrow> hash_func a = hash_func b"
  using assms unfolding hash_eq_ok_def by blast+

lemma probe_cont_cong:
  assumes ok: "hash_eq_ok hash_func equal_func" and ab: "equal_func a b"
  shows "probe_cont equal_func flags keys a x = probe_cont equal_func flags keys b x"
proof -
  have "equal_func (keys ! x) a \<longleftrightarrow> equal_func (keys ! x) b"
    using hash_eq_okD(2,3)[OF ok] ab by blast
  then show ?thesis by (simp add: probe_cont_def)
qed

lemma h_stops_cong:
  assumes ok: "hash_eq_ok hash_func equal_func" and ab: "equal_func a b"
  shows "h_stops hash_func equal_func h a n = h_stops hash_func equal_func h b n"
  using probe_cont_cong[OF ok ab] hash_eq_okD(4)[OF ok ab]
  by (simp add: h_stops_def stops_at_def)

lemma h_probe_cong:
  assumes ok: "hash_eq_ok hash_func equal_func" and ab: "equal_func a b"
  shows "h_probe hash_func h a n = h_probe hash_func h b n"
  using hash_eq_okD(4)[OF ok ab] by (simp add: h_probe_def)

lemma uhash_get_cong:
  assumes ok: "hash_eq_ok hash_func equal_func" and ab: "equal_func a b"
    and p: "h_size h = 0 \<or> pow2_size h" and ac: "arrays_cover h"
  shows "uhash_get hash_func equal_func h a = uhash_get hash_func equal_func h b"
proof (cases "h_size h = 0")
  case True
  then show ?thesis by (simp add: uhash_get_def)
next
  case False
  then have p: "pow2_size h" using p by simp
  from h_stops_or_full[OF p, of hash_func equal_func a] show ?thesis
  proof
    assume "\<exists>n. h_stops hash_func equal_func h a n"
    then obtain n where n: "h_stops hash_func equal_func h a n" ..
    then have n': "h_stops hash_func equal_func h b n"
      using h_stops_cong[OF ok ab, of h n] by simp
    show ?thesis
      using uhash_get_stops[OF p ac n] uhash_get_stops[OF p ac n'] h_probe_cong[OF ok ab, of h n]
      by simp
  next
    assume f: "\<forall>x<h_size h. probe_cont equal_func (h_flags h) (h_keys h) a x"
    then have f': "\<forall>x<h_size h. probe_cont equal_func (h_flags h) (h_keys h) b x"
      by (simp add: probe_cont_cong[OF ok ab])
    show ?thesis
      using uhash_get_full[OF p ac, of equal_func a hash_func]
        uhash_get_full[OF p ac, of equal_func b hash_func] f f' by simp
  qed
qed

lemma counts_ok_size: "counts_ok h \<Longrightarrow> h_size h = 0 \<or> pow2_size h"
  by (auto simp: counts_ok_def)

lemma table_okD:
  assumes "table_ok hash_func equal_func h"
  shows "counts_ok h" and "arrays_cover h" and "h_size h = 0 \<or> pow2_size h"
    and "h_size h = 0 \<or> h_occupied h < h_size h"
    and "i < h_size h \<Longrightarrow> uhash_exists h i \<Longrightarrow>
           uhash_get hash_func equal_func h (h_keys h ! i) = Some i"
  using assms by (auto simp: table_ok_def counts_ok_def)

text \<open>In a well-formed table a lookup finds exactly the live bucket with an equal key.\<close>

lemma get_hit:
  assumes t: "table_ok hash_func equal_func h" and ok: "hash_eq_ok hash_func equal_func"
    and i: "i < h_size h" "uhash_exists h i" "equal_func (h_keys h ! i) key"
  shows "uhash_get hash_func equal_func h key = Some i"
  using uhash_get_cong[OF ok i(3) table_okD(3)[OF t] table_okD(2)[OF t]]
    table_okD(5)[OF t i(1,2)] by simp

lemma get_some:
  assumes t: "table_ok hash_func equal_func h"
  shows "\<exists>r. uhash_get hash_func equal_func h key = Some r \<and>
           (r = UHASH_INDEX_MISSING \<or>
            (r < h_size h \<and> uhash_exists h r \<and> equal_func (h_keys h ! r) key))"
proof (cases "h_size h = 0")
  case True
  then show ?thesis by (simp add: uhash_get_def)
next
  case False
  then have p: "pow2_size h" using table_okD(3)[OF t] by simp
  from uhash_get_result[OF p table_okD(2)[OF t], of hash_func equal_func key]
  show ?thesis using h_probe_less[OF p] by (auto simp: uhash_exists_def)
qed

lemma get_miss:
  assumes t: "table_ok hash_func equal_func h"
    and none: "\<And>i. i < h_size h \<Longrightarrow> uhash_exists h i \<Longrightarrow> \<not> equal_func (h_keys h ! i) key"
  shows "uhash_get hash_func equal_func h key = Some UHASH_INDEX_MISSING"
  using get_some[OF t, of key] none by auto

lemma get_hit_iff:
  assumes t: "table_ok hash_func equal_func h" and ok: "hash_eq_ok hash_func equal_func"
    and i: "i \<noteq> UHASH_INDEX_MISSING"
  shows "uhash_get hash_func equal_func h key = Some i \<longleftrightarrow>
         (i < h_size h \<and> uhash_exists h i \<and> equal_func (h_keys h ! i) key)"
  using get_some[OF t, of key] get_hit[OF t ok] i by auto

lemma index_not_missing:
  assumes c: "h_size h = 0 \<or> pow2_size h" and i: "i < h_size h"
  shows "i \<noteq> UHASH_INDEX_MISSING"
  using c i missing_not_index[of h i] by auto

lemma live_keys_distinct:
  assumes t: "table_ok hash_func equal_func h" and ok: "hash_eq_ok hash_func equal_func"
    and i: "i < h_size h" "uhash_exists h i" and j: "j < h_size h" "uhash_exists h j"
    and e: "equal_func (h_keys h ! i) (h_keys h ! j)"
  shows "i = j"
  using get_hit[OF t ok i e] table_okD(5)[OF t j] by simp

lemma findable_stops:
  assumes t: "table_ok hash_func equal_func h"
    and i: "i < h_size h" "uhash_exists h i"
  shows "\<exists>n. h_stops hash_func equal_func h (h_keys h ! i) n \<and>
             h_probe hash_func h (h_keys h ! i) n = i"
proof -
  have p: "pow2_size h" using table_okD(3)[OF t] i by auto
  have g: "uhash_get hash_func equal_func h (h_keys h ! i) = Some i"
    by (rule table_okD(5)[OF t i])
  have "i \<noteq> UHASH_INDEX_MISSING" using missing_not_index[OF p i(1)] .
  then show ?thesis
    using uhash_get_result[OF p table_okD(2)[OF t], of hash_func equal_func "h_keys h ! i"] g
    by auto
qed

lemma stops_get:
  assumes p: "pow2_size h" and ac: "arrays_cover h"
    and st: "h_stops hash_func equal_func h key n" and b: "h_probe hash_func h key n = i"
    and l: "uhash_exists h i"
  shows "uhash_get hash_func equal_func h key = Some i"
  using uhash_get_stops[OF p ac st] b l by (simp add: uhash_exists_def)

subsection \<open>Counting buckets\<close>

lemma length_filter_upt: "length (filter P [0..<n]) = card {i. i < n \<and> P i}"
proof -
  have "{i. i < n \<and> P ([0..<n] ! i)} = {i. i < n \<and> P i}" by auto
  then show ?thesis by (simp add: length_filter_conv_card)
qed

lemma length_live_buckets:
  "length (live_buckets h) = card {i. i < h_size h \<and> uhash_exists h i}"
  by (simp add: live_buckets_def length_filter_upt)

lemma length_used_buckets:
  "length (used_buckets h) = card {i. i < h_size h \<and> \<not> p_uhf_isempty (h_flags h) i}"
  by (simp add: used_buckets_def length_filter_upt)

lemma live_le_used: "length (live_buckets h) \<le> length (used_buckets h)"
  unfolding length_live_buckets length_used_buckets
  by (rule card_mono) (auto simp: uhash_exists_def p_uhf_iseither_def p_uhf_isempty_def)

lemma used_le_size: "length (used_buckets h) \<le> h_size h"
  unfolding used_buckets_def by (metis length_filter_le length_upt diff_zero)

lemma card_insert_bucket:
  assumes "x < (n::nat)" "\<not> P x" "\<And>i. i \<noteq> x \<Longrightarrow> Q i = P i" "Q x"
  shows "card {i. i < n \<and> Q i} = Suc (card {i. i < n \<and> P i})"
proof -
  have "{i. i < n \<and> Q i} = insert x {i. i < n \<and> P i}"
  proof (rule set_eqI)
    fix i show "i \<in> {i. i < n \<and> Q i} \<longleftrightarrow> i \<in> insert x {i. i < n \<and> P i}"
      using assms by (cases "i = x") auto
  qed
  moreover have nin: "x \<notin> {i. i < n \<and> P i}" using assms by simp
  moreover have fin: "finite {i. i < n \<and> P i}"
    by (rule finite_subset[of _ "{..<n}"]) auto
  moreover have "card (insert x {i. i < n \<and> P i}) = Suc (card {i. i < n \<and> P i})"
    using fin nin by (rule card_insert_disjoint)
  ultimately show ?thesis by (simp only:)
qed

lemma card_remove_bucket:
  assumes "x < (n::nat)" "P x" "\<And>i. i \<noteq> x \<Longrightarrow> Q i = P i" "\<not> Q x"
  shows "Suc (card {i. i < n \<and> Q i}) = card {i. i < n \<and> P i}"
  using card_insert_bucket[of x n Q P] assms by simp

lemma card_same_bucket:
  assumes "\<And>i. i < (n::nat) \<Longrightarrow> Q i = P i"
  shows "card {i. i < n \<and> Q i} = card {i. i < n \<and> P i}"
proof -
  have "{i. i < n \<and> Q i} = {i. i < n \<and> P i}" using assms by auto
  then show ?thesis by simp
qed

section \<open>Insertion without resize\<close>

lemmas flag_defs = p_uhf_isempty_def p_uhf_isdel_def p_uhf_iseither_def
  p_uhf_set_isdel_true_def p_uhf_set_isboth_false_def p_uhf_set_isempty_false_def
  p_uhf_set_isdel_false_def

lemma empty_bucket_exists:
  assumes c: "counts_ok h" and sz: "0 < h_size h" and occ: "h_occupied h < h_size h"
  shows "\<exists>b<h_size h. p_uhf_isempty (h_flags h) b"
proof (rule ccontr)
  assume "\<not> ?thesis"
  then have "{i. i < h_size h \<and> \<not> p_uhf_isempty (h_flags h) i} = {..<h_size h}" by auto
  then have "length (used_buckets h) = h_size h" by (simp add: length_used_buckets)
  then show False using c sz occ by (simp add: counts_ok_def)
qed

lemma count_le_size:
  assumes c: "counts_ok h"
  shows "h_count h \<le> h_size h" "h_size h \<le> 2 ^ 31"
proof -
  show "h_count h \<le> h_size h"
    using c live_le_used[of h] used_le_size[of h] by (simp add: counts_ok_def)
  show "h_size h \<le> 2 ^ 31" using c pow2_size_le[of h] by (auto simp: counts_ok_def)
qed

lemma put_insert_present:
  assumes p: "pow2_size h" and ac: "arrays_cover h"
    and g: "uhash_get hash_func equal_func h key = Some i" and i: "i \<noteq> UHASH_INDEX_MISSING"
  shows "uhash_put_insert hash_func equal_func h key = Some (UHASH_PRESENT, i, h)"
proof -
  from uhash_get_result[OF p ac, of hash_func equal_func key] g i
  obtain n where n: "h_stops hash_func equal_func h key n" "i = h_probe hash_func h key n"
    and live: "\<not> p_uhf_iseither (h_flags h) i" by auto
  have ne: "\<not> p_uhf_isempty (h_flags h) i" "\<not> p_uhf_isdel (h_flags h) i"
    using live by (simp_all add: flag_defs)
  from put_probe_stops[OF p n(1)] ne n(2)
  have x: "uhash_put_probe hash_func equal_func h key = Some i" by auto
  have "i < h_size h" using n(2) h_probe_less[OF p] by simp
  then show ?thesis using x ne ac pow2_size_pos[OF p]
    by (simp add: uhash_put_insert_def Let_def)
qed

lemma put_insert_absent:
  assumes t: "table_ok hash_func equal_func h" and ok: "hash_eq_ok hash_func equal_func"
    and sz: "0 < h_size h" and room: "Suc (h_occupied h) < h_size h"
    and miss: "uhash_get hash_func equal_func h key = Some UHASH_INDEX_MISSING"
  shows "\<exists>x. x < h_size h \<and> \<not> uhash_exists h x \<and>
           uhash_put_insert hash_func equal_func h key =
             Some (UHASH_INSERTED, x,
                   h\<lparr>h_keys := (h_keys h)[x := key],
                       h_flags := (h_flags h)[x := (False, False)],
                       h_count := h_count h + 1,
                       h_occupied := (if p_uhf_isempty (h_flags h) x then h_occupied h + 1
                                      else h_occupied h)\<rparr>) \<and>
           table_ok hash_func equal_func
                   (h\<lparr>h_keys := (h_keys h)[x := key],
                       h_flags := (h_flags h)[x := (False, False)],
                       h_count := h_count h + 1,
                       h_occupied := (if p_uhf_isempty (h_flags h) x then h_occupied h + 1
                                      else h_occupied h)\<rparr>)"
proof -
  have c: "counts_ok h" and ac: "arrays_cover h" using table_okD[OF t] by simp_all
  have p: "pow2_size h" using table_okD(3)[OF t] sz by simp
  have lenf: "length (h_flags h) = h_size h" using c by (simp add: counts_ok_def)
  have lenk: "h_size h \<le> length (h_keys h)" using ac by (simp add: arrays_cover_def)
  \<comment> \<open>the probe stops at an empty bucket\<close>
  obtain b where b: "b < h_size h" "p_uhf_isempty (h_flags h) b"
    using empty_bucket_exists[OF c sz] room by auto
  then have "\<not> probe_cont equal_func (h_flags h) (h_keys h) key b" by (simp add: probe_cont_def)
  then obtain n where n: "h_stops hash_func equal_func h key n"
    using h_stops_or_full[OF p, of hash_func equal_func key] b(1) by blast
  let ?pr = "h_probe hash_func h key"
  have nlt: "n < h_size h"
    and cont: "\<And>m. m < n \<Longrightarrow> probe_cont equal_func (h_flags h) (h_keys h) key (?pr m)"
    using n by (simp_all add: h_stops_def stops_at_def h_probe_def)
  have emp: "p_uhf_isempty (h_flags h) (?pr n)"
  proof (rule ccontr)
    assume ne: "\<not> p_uhf_isempty (h_flags h) (?pr n)"
    have "\<not> probe_cont equal_func (h_flags h) (h_keys h) key (?pr n)"
      using n by (simp add: h_stops_def stops_at_def h_probe_def)
    then have "\<not> p_uhf_iseither (h_flags h) (?pr n)" using ne
      by (auto simp: probe_cont_def flag_defs)
    then have "uhash_get hash_func equal_func h key = Some (?pr n)"
      using uhash_get_stops[OF p ac n] by simp
    then show False
      using miss missing_not_index[OF p h_probe_less[OF p], of hash_func key n] by simp
  qed
  from put_probe_stops[OF p n] emp obtain x where
    x: "uhash_put_probe hash_func equal_func h key = Some x"
    and xc: "x = ?pr n \<or> (\<exists>m<n. x = ?pr m \<and> p_uhf_isdel (h_flags h) x)" by auto
  \<comment> \<open>\<open>x\<close> is on the probe path, before or at the stop\<close>
  obtain mx where mx: "mx \<le> n" "x = ?pr mx"
    and xfree: "p_uhf_isempty (h_flags h) x \<or> p_uhf_isdel (h_flags h) x"
    using xc emp by (metis less_imp_le_nat order_refl)
  have xlt: "x < h_size h" using mx(2) h_probe_less[OF p] by simp
  have xdead: "\<not> uhash_exists h x" using xfree by (auto simp: uhash_exists_def flag_defs)
  have cnt: "h_count h + 1 < 2 ^ 32" "h_occupied h + 1 < 2 ^ 32"
    using count_le_size[OF c] room by simp_all
  define h' where "h' = h\<lparr>h_keys := (h_keys h)[x := key],
                       h_flags := (h_flags h)[x := (False, False)],
                       h_count := h_count h + 1,
                       h_occupied := (if p_uhf_isempty (h_flags h) x then h_occupied h + 1
                                      else h_occupied h)\<rparr>"
  have f': "h_size h' = h_size h" "h_flags h' = (h_flags h)[x := (False, False)]"
    "h_keys h' = (h_keys h)[x := key]" "h_vals h' = h_vals h" "h_count h' = h_count h + 1"
    "h_occupied h' = (if p_uhf_isempty (h_flags h) x then h_occupied h + 1 else h_occupied h)"
    by (simp_all add: h'_def)
  have res: "uhash_put_insert hash_func equal_func h key = Some (UHASH_INSERTED, x, h')"
    using x xfree xlt sz ac cnt unfolding h'_def
    by (auto simp: uhash_put_insert_def Let_def ulib_uint_id p_uhf_set_isboth_false_def)
  \<comment> \<open>the flags and keys of the new table\<close>
  have fl': "\<And>i. i \<noteq> x \<Longrightarrow> h_flags h' ! i = h_flags h ! i" "h_flags h' ! x = (False, False)"
    using xlt lenf by (simp_all add: f')
  have ks': "\<And>i. i \<noteq> x \<Longrightarrow> h_keys h' ! i = h_keys h ! i" "h_keys h' ! x = key"
    using xlt lenk by (simp_all add: f')
  have ex': "\<And>i. i \<noteq> x \<Longrightarrow> uhash_exists h' i = uhash_exists h i" "uhash_exists h' x"
    using fl' by (simp_all add: uhash_exists_def flag_defs)
  have p': "pow2_size h'" using p by (simp add: pow2_size_def f')
  have ac': "arrays_cover h'" using ac by (simp add: arrays_cover_def f' split: option.splits)
  have pr': "h_probe hash_func h' k m = h_probe hash_func h k m" for k m
    by (simp add: h_probe_def f')
  have cont': "probe_cont equal_func (h_flags h') (h_keys h') k i =
               probe_cont equal_func (h_flags h) (h_keys h) k i" if "i \<noteq> x" for k i
    using fl'(1)[OF that] ks'(1)[OF that] by (simp add: probe_cont_def flag_defs)
  have contx: "probe_cont equal_func (h_flags h') (h_keys h') k x \<longleftrightarrow> \<not> equal_func key k" for k
    using fl'(2) ks'(2) by (simp add: probe_cont_def flag_defs)
  \<comment> \<open>counters\<close>
  have live': "length (live_buckets h') = Suc (length (live_buckets h))"
    unfolding length_live_buckets f'(1) using xlt xdead ex'
    by (intro card_insert_bucket[of x]) simp_all
  have used': "length (used_buckets h') =
               (if p_uhf_isempty (h_flags h) x then Suc (length (used_buckets h))
                else length (used_buckets h))"
  proof (cases "p_uhf_isempty (h_flags h) x")
    case True
    have "card {i. i < h_size h \<and> \<not> p_uhf_isempty (h_flags h') i} =
          Suc (card {i. i < h_size h \<and> \<not> p_uhf_isempty (h_flags h) i})"
      using xlt True fl' by (intro card_insert_bucket[of x]) (simp_all add: flag_defs)
    then show ?thesis using True by (simp add: length_used_buckets f')
  next
    case False
    have "card {i. i < h_size h \<and> \<not> p_uhf_isempty (h_flags h') i} =
          card {i. i < h_size h \<and> \<not> p_uhf_isempty (h_flags h) i}"
    proof (rule card_same_bucket)
      fix i assume "i < h_size h"
      show "(\<not> p_uhf_isempty (h_flags h') i) = (\<not> p_uhf_isempty (h_flags h) i)"
        using False fl' by (cases "i = x") (simp_all add: flag_defs)
    qed
    then show ?thesis using False by (simp add: length_used_buckets f')
  qed
  have c': "counts_ok h'"
    using c sz live' used' lenf by (simp add: counts_ok_def pow2_size_def f')
  \<comment> \<open>every live key is found\<close>
  have find: "uhash_get hash_func equal_func h' (h_keys h' ! i) = Some i"
    if i: "i < h_size h'" "uhash_exists h' i" for i
  proof (cases "i = x")
    case True
    have "h_stops hash_func equal_func h' key mx"
      unfolding h_stops_def stops_at_def
    proof (intro conjI allI impI)
      show "mx < h_size h'" using mx(1) nlt by (simp add: f')
      show "\<not> probe_cont equal_func (h_flags h') (h_keys h') key
               (probe (h_size h') (hash_func key mod h_size h') mx)"
        using contx[of key] hash_eq_okD(1)[OF ok] mx(2) by (simp add: h_probe_def f')
      fix m assume m: "m < mx"
      have "?pr m \<noteq> x"
      proof
        assume "?pr m = x"
        then have "probe (h_size h) (hash_func key mod h_size h) m =
                   probe (h_size h) (hash_func key mod h_size h) mx"
          using mx(2) by (simp add: h_probe_def)
        moreover obtain k where "h_size h = 2 ^ k" using p by (auto simp: pow2_size_def)
        ultimately have "m = mx" using m mx(1) nlt by (intro probe_inj[of "h_size h" k m mx]) simp_all
        then show False using m by simp
      qed
      then show "probe_cont equal_func (h_flags h') (h_keys h') key
                   (probe (h_size h') (hash_func key mod h_size h') m)"
        using cont'[of "?pr m" key] cont[of m] m mx(1) by (simp add: h_probe_def f')
    qed
    then show ?thesis
      using stops_get[OF p' ac', of hash_func equal_func key mx x] mx(2) ex'(2) True ks'(2)
      by (simp add: pr')
  next
    case False
    then have il: "i < h_size h" "uhash_exists h i" using i ex'(1) by (simp_all add: f')
    let ?k = "h_keys h ! i"
    obtain ni where ni: "h_stops hash_func equal_func h ?k ni" "h_probe hash_func h ?k ni = i"
      using findable_stops[OF t il] by blast
    have nek: "\<not> equal_func key ?k"
    proof
      assume "equal_func key ?k"
      then have "equal_func ?k key" by (rule hash_eq_okD(2)[OF ok])
      then have "uhash_get hash_func equal_func h key = Some i" by (rule get_hit[OF t ok il])
      then show False using miss missing_not_index[OF p il(1)] by simp
    qed
    have "h_stops hash_func equal_func h' ?k ni"
      unfolding h_stops_def stops_at_def
    proof (intro conjI allI impI)
      show "ni < h_size h'" using ni(1) by (simp add: h_stops_def stops_at_def f')
      show "\<not> probe_cont equal_func (h_flags h') (h_keys h') ?k
               (probe (h_size h') (hash_func ?k mod h_size h') ni)"
        using ni False cont'[of i ?k] by (simp add: h_stops_def stops_at_def h_probe_def f')
      fix m assume m: "m < ni"
      have cm: "probe_cont equal_func (h_flags h) (h_keys h) ?k (h_probe hash_func h ?k m)"
        using ni(1) m by (simp add: h_stops_def stops_at_def h_probe_def)
      show "probe_cont equal_func (h_flags h') (h_keys h') ?k
                   (probe (h_size h') (hash_func ?k mod h_size h') m)"
      proof (cases "h_probe hash_func h ?k m = x")
        case True
        then show ?thesis using contx[of ?k] nek by (simp add: h_probe_def f')
      next
        case ne: False
        then show ?thesis using cont'[OF ne, of ?k] cm by (simp add: h_probe_def f')
      qed
    qed
    then show ?thesis
      using stops_get[OF p' ac', of hash_func equal_func ?k ni i] ni(2) i(2) ks'(1)[OF False]
      by (simp add: pr')
  qed
  have occ': "h_occupied h' < h_size h'" using room by (simp add: f')
  have "table_ok hash_func equal_func h'"
    unfolding table_ok_def using c' ac' occ' find by simp
  then show ?thesis using res xlt xdead unfolding h'_def by blast
qed

section \<open>Deletion\<close>

lemma delete_dead:
  "x < length (h_flags h) \<Longrightarrow> \<not> uhash_exists h x \<Longrightarrow> uhash_delete h x = Some h"
  by (simp add: uhash_delete_def uhash_exists_def)

lemma delete_live_result:
  assumes c: "counts_ok h" and x: "x < h_size h" "uhash_exists h x"
  shows "uhash_delete h x =
           Some (h\<lparr>h_flags := (h_flags h)[x := (False, True)], h_count := h_count h - 1\<rparr>)"
    and "0 < h_count h"
proof -
  have lenf: "length (h_flags h) = h_size h" using c by (simp add: counts_ok_def)
  have "x \<in> {i. i < h_size h \<and> uhash_exists h i}" using x by simp
  moreover have "finite {i. i < h_size h \<and> uhash_exists h i}" by simp
  ultimately have "0 < card {i. i < h_size h \<and> uhash_exists h i}"
    using card_gt_0_iff by blast
  then show pos: "0 < h_count h" using c by (simp add: counts_ok_def length_live_buckets)
  have "h_count h < 2 ^ 32" using count_le_size[OF c] by simp
  then have "ulib_uint (h_count h + (2 ^ 32 - 1)) = h_count h - 1"
    using pos by (simp add: ulib_uint_def mod_if)
  moreover have "fst (h_flags h ! x) = False" using x(2) by (simp add: uhash_exists_def flag_defs)
  ultimately show "uhash_delete h x =
           Some (h\<lparr>h_flags := (h_flags h)[x := (False, True)], h_count := h_count h - 1\<rparr>)"
    using x lenf by (simp add: uhash_delete_def uhash_exists_def p_uhf_set_isdel_true_def)
qed

lemma delete_live_ok:
  assumes t: "table_ok hash_func equal_func h" and ok: "hash_eq_ok hash_func equal_func"
    and x: "x < h_size h" "uhash_exists h x"
  shows "table_ok hash_func equal_func
           (h\<lparr>h_flags := (h_flags h)[x := (False, True)], h_count := h_count h - 1\<rparr>)"
proof -
  have c: "counts_ok h" and ac: "arrays_cover h" using table_okD[OF t] by simp_all
  have p: "pow2_size h" using table_okD(3)[OF t] x by auto
  have lenf: "length (h_flags h) = h_size h" using c by (simp add: counts_ok_def)
  define h' where "h' = h\<lparr>h_flags := (h_flags h)[x := (False, True)], h_count := h_count h - 1\<rparr>"
  have f': "h_size h' = h_size h" "h_flags h' = (h_flags h)[x := (False, True)]"
    "h_keys h' = h_keys h" "h_vals h' = h_vals h" "h_count h' = h_count h - 1"
    "h_occupied h' = h_occupied h"
    by (simp_all add: h'_def)
  have fl': "\<And>i. i \<noteq> x \<Longrightarrow> h_flags h' ! i = h_flags h ! i" "h_flags h' ! x = (False, True)"
    using x lenf by (simp_all add: f')
  have ex': "\<And>i. i \<noteq> x \<Longrightarrow> uhash_exists h' i = uhash_exists h i" "\<not> uhash_exists h' x"
    using fl' by (simp_all add: uhash_exists_def flag_defs)
  have p': "pow2_size h'" using p by (simp add: pow2_size_def f')
  have ac': "arrays_cover h'" using ac by (simp add: arrays_cover_def f' split: option.splits)
  have pr': "h_probe hash_func h' k m = h_probe hash_func h k m" for k m
    by (simp add: h_probe_def f')
  have cont': "probe_cont equal_func (h_flags h') (h_keys h') k i =
               probe_cont equal_func (h_flags h) (h_keys h) k i" if "i \<noteq> x" for k i
    using fl'(1)[OF that] by (simp add: probe_cont_def flag_defs f')
  have contx: "probe_cont equal_func (h_flags h') (h_keys h') k x" for k
    using fl'(2) by (simp add: probe_cont_def flag_defs)
  have live': "Suc (length (live_buckets h')) = length (live_buckets h)"
    unfolding length_live_buckets f'(1) using x ex'
    by (intro card_remove_bucket[of x]) simp_all
  have used': "length (used_buckets h') = length (used_buckets h)"
    unfolding length_used_buckets f'(1)
  proof (rule card_same_bucket)
    fix i assume "i < h_size h"
    show "(\<not> p_uhf_isempty (h_flags h') i) = (\<not> p_uhf_isempty (h_flags h) i)"
      using x(2) fl' by (cases "i = x") (simp_all add: flag_defs uhash_exists_def)
  qed
  have c': "counts_ok h'"
    using c live' used' lenf x by (simp add: counts_ok_def pow2_size_def f')
  have find: "uhash_get hash_func equal_func h' (h_keys h' ! i) = Some i"
    if i: "i < h_size h'" "uhash_exists h' i" for i
  proof -
    have ne: "i \<noteq> x" using i(2) ex'(2) by auto
    then have il: "i < h_size h" "uhash_exists h i" using i ex'(1) by (simp_all add: f')
    let ?k = "h_keys h ! i"
    obtain ni where ni: "h_stops hash_func equal_func h ?k ni" "h_probe hash_func h ?k ni = i"
      using findable_stops[OF t il] by blast
    have "h_stops hash_func equal_func h' ?k ni"
      unfolding h_stops_def stops_at_def
    proof (intro conjI allI impI)
      show "ni < h_size h'" using ni(1) by (simp add: h_stops_def stops_at_def f')
      show "\<not> probe_cont equal_func (h_flags h') (h_keys h') ?k
               (probe (h_size h') (hash_func ?k mod h_size h') ni)"
        using ni ne cont'[of i ?k] by (simp add: h_stops_def stops_at_def h_probe_def f')
      fix m assume m: "m < ni"
      have cm: "probe_cont equal_func (h_flags h) (h_keys h) ?k (h_probe hash_func h ?k m)"
        using ni(1) m by (simp add: h_stops_def stops_at_def h_probe_def)
      show "probe_cont equal_func (h_flags h') (h_keys h') ?k
                   (probe (h_size h') (hash_func ?k mod h_size h') m)"
      proof (cases "h_probe hash_func h ?k m = x")
        case True
        then show ?thesis using contx[of ?k] by (simp add: h_probe_def f')
      next
        case ne: False
        then show ?thesis using cont'[OF ne, of ?k] cm by (simp add: h_probe_def f')
      qed
    qed
    then show ?thesis
      using stops_get[OF p' ac', of hash_func equal_func ?k ni i] ni(2) i(2)
      by (simp add: pr' f')
  qed
  have occ': "h_size h' = 0 \<or> h_occupied h' < h_size h'"
    using table_okD(4)[OF t] by (simp add: f')
  have "table_ok hash_func equal_func h'"
    unfolding table_ok_def using c' ac' occ' find by simp
  then show ?thesis unfolding h'_def .
qed

lemma delete_live_miss:
  assumes t: "table_ok hash_func equal_func h" and ok: "hash_eq_ok hash_func equal_func"
    and x: "x < h_size h" "uhash_exists h x" and e: "equal_func (h_keys h ! x) key"
  shows "uhash_get hash_func equal_func
           (h\<lparr>h_flags := (h_flags h)[x := (False, True)], h_count := h_count h - 1\<rparr>) key =
         Some UHASH_INDEX_MISSING"
proof (rule get_miss[OF delete_live_ok[OF t ok x]])
  fix i
  let ?h' = "h\<lparr>h_flags := (h_flags h)[x := (False, True)], h_count := h_count h - 1\<rparr>"
  assume i: "i < h_size ?h'" "uhash_exists ?h' i"
  have lenf: "length (h_flags h) = h_size h" using table_okD(1)[OF t] by (simp add: counts_ok_def)
  have ne: "i \<noteq> x" using i(2) x(1) lenf by (auto simp: uhash_exists_def flag_defs)
  then have il: "i < h_size h" "uhash_exists h i" using i by (simp_all add: uhash_exists_def flag_defs)
  show "\<not> equal_func (h_keys ?h' ! i) key"
  proof
    assume "equal_func (h_keys ?h' ! i) key"
    then have "equal_func (h_keys h ! i) key" by simp
    moreover have "equal_func key (h_keys h ! x)" using e by (rule hash_eq_okD(2)[OF ok])
    ultimately have "equal_func (h_keys h ! i) (h_keys h ! x)" by (rule hash_eq_okD(3)[OF ok])
    then show False using live_keys_distinct[OF t ok il x] ne by simp
  qed
qed

text \<open>Lookups agree on two well-formed tables with the same live entries.\<close>

lemma same_entries_get:
  assumes t: "table_ok hash_func equal_func h" and t': "table_ok hash_func equal_func h'"
    and ok: "hash_eq_ok hash_func equal_func" and e: "entries h' = entries h"
  shows "(uhash_get hash_func equal_func h key = Some UHASH_INDEX_MISSING \<and>
          uhash_get hash_func equal_func h' key = Some UHASH_INDEX_MISSING) \<or>
         (\<exists>i i'. i < h_size h \<and> i' < h_size h' \<and> uhash_exists h i \<and> uhash_exists h' i' \<and>
            uhash_get hash_func equal_func h key = Some i \<and>
            uhash_get hash_func equal_func h' key = Some i' \<and>
            entry h' i' = entry h i)"
proof -
  have step: "\<exists>j. j < h_size b \<and> uhash_exists b j \<and>
                 uhash_get hash_func equal_func b key = Some j \<and> entry b j = entry a i"
    if ta: "table_ok hash_func equal_func a" and tb: "table_ok hash_func equal_func b"
      and ab: "entries a = entries b"
      and i: "i < h_size a" "uhash_exists a i" "equal_func (h_keys a ! i) key"
    for a b :: "('a, 'b) UHash" and i
  proof -
    have "entry a i \<in> entries b" using i ab by (auto simp: entries_def)
    then obtain j where j: "j < h_size b" "uhash_exists b j" "entry b j = entry a i"
      by (auto simp: entries_def)
    then have "h_keys b ! j = h_keys a ! i" by (simp add: entry_def)
    then have "uhash_get hash_func equal_func b key = Some j"
      using get_hit[OF tb ok j(1,2)] i(3) by simp
    then show ?thesis using j by blast
  qed
  from get_some[OF t, of key] obtain r where
    r: "uhash_get hash_func equal_func h key = Some r"
      "r = UHASH_INDEX_MISSING \<or> (r < h_size h \<and> uhash_exists h r \<and> equal_func (h_keys h ! r) key)"
    by blast
  from get_some[OF t', of key] obtain r' where
    r': "uhash_get hash_func equal_func h' key = Some r'"
      "r' = UHASH_INDEX_MISSING \<or> (r' < h_size h' \<and> uhash_exists h' r' \<and> equal_func (h_keys h' ! r') key)"
    by blast
  show ?thesis
  proof (cases "r = UHASH_INDEX_MISSING")
    case True
    have "r' = UHASH_INDEX_MISSING"
    proof (rule ccontr)
      assume "r' \<noteq> UHASH_INDEX_MISSING"
      then have "r' < h_size h'" "uhash_exists h' r'" "equal_func (h_keys h' ! r') key"
        using r'(2) by simp_all
      from step[OF t' t e this] obtain j where "j < h_size h"
        "uhash_get hash_func equal_func h key = Some j" by blast
      then show False using r(1) True index_not_missing[OF table_okD(3)[OF t]] by auto
    qed
    then show ?thesis using r r' True by simp
  next
    case False
    then have "r < h_size h" "uhash_exists h r" "equal_func (h_keys h ! r) key"
      using r(2) by simp_all
    from step[OF t t' e[symmetric] this] this r(1) show ?thesis by blast
  qed
qed

section \<open>Resize: the kick-out rehash\<close>

lemma probe_empty_cont:
  "\<not> p_uhf_isempty new_flags i \<Longrightarrow>
   uhash_probe_empty new_flags new_msk i step =
     uhash_probe_empty new_flags new_msk
       (ulib_uint (i + ulib_uint (step + 1)) AND new_msk) (ulib_uint (step + 1))"
  by (subst uhash_probe_empty.simps) (simp only: if_True simp_thms)

lemma probe_empty_stop:
  "p_uhf_isempty new_flags i \<Longrightarrow> uhash_probe_empty new_flags new_msk i step = Some i"
  by (subst uhash_probe_empty.simps) (simp only: if_False simp_thms)

lemma probe_empty_run:
  assumes sz: "sz = 2 ^ k" "k \<le> 31"
    and nN: "n \<le> N" "N < 2 * sz"
    and run: "\<And>m. n \<le> m \<Longrightarrow> m < N \<Longrightarrow> \<not> p_uhf_isempty new_flags (probe sz s m)"
  shows "uhash_probe_empty new_flags (sz - 1) (probe sz s n) n =
         uhash_probe_empty new_flags (sz - 1) (probe sz s N) N"
  using nN(1) run
proof (induction rule: inc_induct)
  case base
  show ?case by simp
next
  case (step m)
  have c: "\<not> p_uhf_isempty new_flags (probe sz s m)"
    using step.prems[of m] step.hyps by simp
  have sm: "Suc m < 2 * sz" using step.hyps nN(2) by simp
  have "uhash_probe_empty new_flags (sz - 1) (probe sz s m) m =
        uhash_probe_empty new_flags (sz - 1) (probe sz s (Suc m)) (Suc m)"
    using step_next(1)[OF sz sm] step_next(2)[OF sz sm, of s]
    by (simp add: probe_empty_cont[OF c])
  also have "\<dots> = uhash_probe_empty new_flags (sz - 1) (probe sz s N) N"
    using step.prems by (intro step.IH) simp_all
  finally show ?case .
qed

lemma probe_empty_stops:
  assumes sz: "sz = 2 ^ k" "k \<le> 31" and s: "s < sz"
    and n: "n < sz" "\<And>m. m < n \<Longrightarrow> \<not> p_uhf_isempty new_flags (probe sz s m)"
      "p_uhf_isempty new_flags (probe sz s n)"
  shows "uhash_probe_empty new_flags (sz - 1) s 0 = Some (probe sz s n)"
proof -
  have "uhash_probe_empty new_flags (sz - 1) (probe sz s 0) 0 =
        uhash_probe_empty new_flags (sz - 1) (probe sz s n) n"
    using n(1,2) by (intro probe_empty_run[OF sz]) simp_all
  then show ?thesis using probe_empty_stop[OF n(3)] s by (simp add: probe_0)
qed

text \<open>A table of new flags that is not full has a first empty bucket on every probe path.\<close>

lemma first_empty:
  assumes sz: "sz = 2 ^ k" and len: "length new_flags = sz"
    and room: "card {i. placed new_flags i} < sz"
  shows "\<exists>n<sz. p_uhf_isempty new_flags (probe sz s n) \<and>
               (\<forall>m<n. placed new_flags (probe sz s m))"
proof -
  have "\<exists>b<sz. p_uhf_isempty new_flags b"
  proof (rule ccontr)
    assume "\<not> ?thesis"
    then have "{i. placed new_flags i} = {..<sz}" using len by (auto simp: placed_def)
    then show False using room by simp
  qed
  then obtain b where b: "b < sz" "p_uhf_isempty new_flags b" by blast
  obtain nb where nb: "nb < sz" "probe sz s nb = b" using probe_surj[OF sz b(1), of s] by blast
  define P where "P n \<longleftrightarrow> n < sz \<and> p_uhf_isempty new_flags (probe sz s n)" for n
  have "\<exists>n. P n" using nb b(2) unfolding P_def by blast
  then obtain n where n: "P n" and least: "\<forall>m<n. \<not> P m"
    unfolding exists_least_iff[of P] by blast
  have pos: "0 < sz" using b(1) by simp
  have "placed new_flags (probe sz s m)" if "m < n" for m
  proof -
    have "m < sz" using that n by (simp add: P_def)
    then have "\<not> p_uhf_isempty new_flags (probe sz s m)" using least that by (simp add: P_def)
    then show ?thesis using len pos by (simp add: placed_def probe_less)
  qed
  then show ?thesis using n unfolding P_def by blast
qed

lemma rehash_invD:
  assumes "rehash_inv hash_func equal_func ns h nf"
  shows "length nf = ns" and "\<And>i. i < ns \<Longrightarrow> \<not> p_uhf_isdel nf i"
    and "length (h_flags h) = h_size h"
    and "h_size h \<le> length (h_keys h)" and "ns \<le> length (h_keys h)"
    and "\<And>vs. h_vals h = Some vs \<Longrightarrow> h_size h \<le> length vs \<and> ns \<le> length vs"
    and "\<And>i. placed nf i \<Longrightarrow> \<not> pending h i"
    and "\<And>i j. i \<in> slots h nf \<Longrightarrow> j \<in> slots h nf \<Longrightarrow>
           equal_func (h_keys h ! i) (h_keys h ! j) \<Longrightarrow> i = j"
    and "\<And>i. placed nf i \<Longrightarrow>
           \<exists>n<ns. probe ns (hash_func (h_keys h ! i) mod ns) n = i \<and>
             (\<forall>m<n. placed nf (probe ns (hash_func (h_keys h ! i) mod ns) m))"
  using assms unfolding rehash_inv_def by (auto split: option.splits)

lemma slots_finite: "finite (slots h nf)"
proof -
  have "slots h nf \<subseteq> {..<h_size h} \<union> {..<length nf}"
    by (auto simp: slots_def pending_def placed_def)
  then show ?thesis by (rule finite_subset) simp
qed

lemma pending_finite: "finite {i. pending h i}"
  by (rule finite_subset[of _ "{..<h_size h}"]) (auto simp: pending_def)

lemma placed_le_slots: "card {i. placed nf i} \<le> card (slots h nf)"
  by (rule card_mono[OF slots_finite]) (auto simp: slots_def)

lemma kick_place:
  assumes inv: "rehash_inv hash_func equal_func ns h nf"
    and ok: "hash_eq_ok hash_func equal_func"
    and fresh0: "\<forall>j\<in>slots h nf. \<not> equal_func key (h_keys h ! j)"
    and i: "i < ns" "p_uhf_isempty nf i" "\<not> pending h i"
    and path0: "n < ns" "probe ns (hash_func key mod ns) n = i"
      "\<forall>m<n. placed nf (probe ns (hash_func key mod ns) m)"
    and h': "h_size h' = h_size h" "h_flags h' = h_flags h" "h_keys h' = (h_keys h)[i := key]"
      "h_vals h' = map_option (\<lambda>vs. vs[i := val]) (h_vals h)"
    and nf': "nf' = nf[i := (False, False)]"
  shows "rehash_inv hash_func equal_func ns h' nf'"
    and "slots h' nf' = insert i (slots h nf)" and "i \<notin> slots h nf"
    and "entry h' ` slots h' nf' =
           insert (key, map_option (\<lambda>_. val) (h_vals h)) (entry h ` slots h nf)"
    and "\<And>j. pending h' j = pending h j"
proof -
  note d = rehash_invD[OF inv]
  note fresh = fresh0[rule_format] and path = path0(1,2) path0(3)[rule_format]
  show pend: "pending h' j = pending h j" for j
    by (simp add: pending_def uhash_exists_def h')
  have pl: "placed nf' j \<longleftrightarrow> j = i \<or> placed nf j" for j
    using i(1) d(1) by (auto simp: placed_def nf' flag_defs nth_list_update)
  show notin: "i \<notin> slots h nf" using i by (simp add: slots_def placed_def)
  show sl: "slots h' nf' = insert i (slots h nf)"
    by (auto simp: slots_def pend pl)
  have ks: "h_keys h' ! j = (if j = i then key else h_keys h ! j)" for j
    using i(1) d(5) by (simp add: h' nth_list_update)
  have en: "entry h' j = entry h j" if "j \<noteq> i" for j
    using that by (cases "h_vals h") (simp_all add: entry_def h')
  have eni: "entry h' i = (key, map_option (\<lambda>_. val) (h_vals h))"
    using i(1) d(5,6) by (cases "h_vals h") (auto simp: entry_def h')
  have "entry h' ` slots h nf = entry h ` slots h nf"
  proof (rule image_cong[OF refl])
    fix x assume "x \<in> slots h nf"
    then have "x \<noteq> i" using notin by auto
    then show "entry h' x = entry h x" by (rule en)
  qed
  then show "entry h' ` slots h' nf' =
           insert (key, map_option (\<lambda>_. val) (h_vals h)) (entry h ` slots h nf)"
    by (simp add: sl eni)
  have sym: "equal_func a b \<Longrightarrow> equal_func b a" for a b by (rule hash_eq_okD(2)[OF ok])
  show "rehash_inv hash_func equal_func ns h' nf'"
    unfolding rehash_inv_def
  proof (intro conjI allI impI ballI)
    show "length nf' = ns" using d(1) by (simp add: nf')
    show "\<not> p_uhf_isdel nf' j" if "j < ns" for j
      using d(2)[OF that] d(1) that i(1) by (cases "j = i") (simp_all add: nf' flag_defs)
    show "length (h_flags h') = h_size h'" using d(3) by (simp add: h')
    show "h_size h' \<le> length (h_keys h')" using d(4) by (simp add: h')
    show "ns \<le> length (h_keys h')" using d(5) by (simp add: h')
    show "case h_vals h' of None \<Rightarrow> True | Some vs \<Rightarrow> h_size h' \<le> length vs \<and> ns \<le> length vs"
      using d(6) by (cases "h_vals h") (simp_all add: h')
    show "\<not> pending h' j" if "placed nf' j" for j
      using that pl[of j] i(3) d(7)[of j] by (auto simp: pend)
    show "a = b" if "a \<in> slots h' nf'" "b \<in> slots h' nf'"
        "equal_func (h_keys h' ! a) (h_keys h' ! b)" for a b
    proof (cases "a = i"; cases "b = i")
      assume "a \<noteq> i" "b \<noteq> i"
      then show ?thesis using that d(8)[of a b] by (simp add: sl ks)
    next
      assume "a = i" "b \<noteq> i"
      then show ?thesis using that fresh[of b] by (simp add: sl ks)
    next
      assume "a \<noteq> i" "b = i"
      then show ?thesis using that fresh[of a] sym[of "h_keys h ! a" key] by (auto simp: sl ks)
    qed simp
    show "\<exists>n<ns. probe ns (hash_func (h_keys h' ! j) mod ns) n = j \<and>
             (\<forall>m<n. placed nf' (probe ns (hash_func (h_keys h' ! j) mod ns) m))"
      if "placed nf' j" for j
    proof (cases "j = i")
      case True
      then show ?thesis using path pl by (auto simp: ks)
    next
      case False
      then have "placed nf j" using that pl by simp
      from d(9)[OF this] False show ?thesis using pl by (auto simp: ks)
    qed
  qed
qed

lemma kick_swap:
  assumes inv: "rehash_inv hash_func equal_func ns h nf"
    and ok: "hash_eq_ok hash_func equal_func"
    and fresh0: "\<forall>j\<in>slots h nf. \<not> equal_func key (h_keys h ! j)"
    and i: "i < ns" "p_uhf_isempty nf i" "pending h i"
    and path0: "n < ns" "probe ns (hash_func key mod ns) n = i"
      "\<forall>m<n. placed nf (probe ns (hash_func key mod ns) m)"
    and h': "h_size h' = h_size h" "h_flags h' = (h_flags h)[i := (False, True)]"
      "h_keys h' = (h_keys h)[i := key]"
      "h_vals h' = map_option (\<lambda>vs. vs[i := val]) (h_vals h)"
    and nf': "nf' = nf[i := (False, False)]"
  shows "rehash_inv hash_func equal_func ns h' nf'"
    and "slots h' nf' = slots h nf"
    and "entry h' ` slots h' nf' =
           insert (key, map_option (\<lambda>_. val) (h_vals h)) (entry h ` (slots h nf - {i}))"
    and "\<And>j. pending h' j \<longleftrightarrow> pending h j \<and> j \<noteq> i"
    and "\<forall>j\<in>slots h' nf'. \<not> equal_func (h_keys h ! i) (h_keys h' ! j)"
proof -
  note d = rehash_invD[OF inv]
  note fresh = fresh0[rule_format] and path = path0(1,2) path0(3)[rule_format]
  have ilt: "i < h_size h" using i(3) by (simp add: pending_def)
  show pend: "pending h' j \<longleftrightarrow> pending h j \<and> j \<noteq> i" for j
    using ilt d(3) by (auto simp: pending_def uhash_exists_def h' flag_defs nth_list_update)
  have pl: "placed nf' j \<longleftrightarrow> j = i \<or> placed nf j" for j
    using i(1) d(1) by (auto simp: placed_def nf' flag_defs nth_list_update)
  have iin: "i \<in> slots h nf" using i(3) by (simp add: slots_def)
  show sl: "slots h' nf' = slots h nf"
    using i(3) by (auto simp: slots_def pend pl)
  have ks: "h_keys h' ! j = (if j = i then key else h_keys h ! j)" for j
    using i(1) d(5) by (simp add: h' nth_list_update)
  have en: "entry h' j = entry h j" if "j \<noteq> i" for j
    using that by (cases "h_vals h") (simp_all add: entry_def h')
  have eni: "entry h' i = (key, map_option (\<lambda>_. val) (h_vals h))"
    using i(1) d(5,6) by (cases "h_vals h") (auto simp: entry_def h')
  have "entry h' ` (slots h nf - {i}) = entry h ` (slots h nf - {i})"
  proof (rule image_cong[OF refl])
    fix x assume "x \<in> slots h nf - {i}"
    then have "x \<noteq> i" by auto
    then show "entry h' x = entry h x" by (rule en)
  qed
  moreover have "slots h nf = insert i (slots h nf - {i})" using iin by auto
  ultimately show "entry h' ` slots h' nf' =
           insert (key, map_option (\<lambda>_. val) (h_vals h)) (entry h ` (slots h nf - {i}))"
    unfolding sl by (metis image_insert eni)
  have sym: "equal_func a b \<Longrightarrow> equal_func b a" for a b by (rule hash_eq_okD(2)[OF ok])
  have "\<not> equal_func (h_keys h ! i) (h_keys h' ! j)" if "j \<in> slots h' nf'" for j
  proof (cases "j = i")
    case True
    then show ?thesis using fresh[OF iin] sym[of "h_keys h ! i" key] by (auto simp: ks)
  next
    case False
    then show ?thesis using d(8)[OF iin, of j] that by (auto simp: ks sl)
  qed
  then show "\<forall>j\<in>slots h' nf'. \<not> equal_func (h_keys h ! i) (h_keys h' ! j)" by blast
  show "rehash_inv hash_func equal_func ns h' nf'"
    unfolding rehash_inv_def
  proof (intro conjI allI impI ballI)
    show "length nf' = ns" using d(1) by (simp add: nf')
    show "\<not> p_uhf_isdel nf' j" if "j < ns" for j
      using d(2)[OF that] d(1) that i(1) by (cases "j = i") (simp_all add: nf' flag_defs)
    show "length (h_flags h') = h_size h'" using d(3) by (simp add: h')
    show "h_size h' \<le> length (h_keys h')" using d(4) by (simp add: h')
    show "ns \<le> length (h_keys h')" using d(5) by (simp add: h')
    show "case h_vals h' of None \<Rightarrow> True | Some vs \<Rightarrow> h_size h' \<le> length vs \<and> ns \<le> length vs"
      using d(6) by (cases "h_vals h") (simp_all add: h')
    show "\<not> pending h' j" if "placed nf' j" for j
      using that pl[of j] d(7)[of j] by (auto simp: pend)
    show "a = b" if "a \<in> slots h' nf'" "b \<in> slots h' nf'"
        "equal_func (h_keys h' ! a) (h_keys h' ! b)" for a b
    proof (cases "a = i"; cases "b = i")
      assume "a \<noteq> i" "b \<noteq> i"
      then show ?thesis using that d(8)[of a b] by (simp add: sl ks)
    next
      assume "a = i" "b \<noteq> i"
      then show ?thesis using that fresh[of b] by (simp add: sl ks)
    next
      assume "a \<noteq> i" "b = i"
      then show ?thesis using that fresh[of a] sym[of "h_keys h ! a" key] by (auto simp: sl ks)
    qed simp
    show "\<exists>n<ns. probe ns (hash_func (h_keys h' ! j) mod ns) n = j \<and>
             (\<forall>m<n. placed nf' (probe ns (hash_func (h_keys h' ! j) mod ns) m))"
      if "placed nf' j" for j
    proof (cases "j = i")
      case True
      then show ?thesis using path pl by (auto simp: ks)
    next
      case False
      then have "placed nf j" using that pl by simp
      from d(9)[OF this] False show ?thesis using pl by (auto simp: ks)
    qed
  qed
qed

lemma kick_out_unfold:
  assumes "uhash_probe_empty new_flags new_msk (ulib_uint (hash_func key) AND new_msk) 0 = Some i"
  shows "uhash_kick_out hash_func new_msk h new_flags key val =
     (if i < h_size h \<and> \<not> p_uhf_iseither (h_flags h) i
      then uhash_kick_out hash_func new_msk
             (h\<lparr>h_keys := (h_keys h)[i := key],
                 h_vals := map_option (\<lambda>vs. vs[i := val]) (h_vals h),
                 h_flags := p_uhf_set_isdel_true (h_flags h) i\<rparr>)
             (p_uhf_set_isempty_false new_flags i)
             (h_keys h ! i)
             (case h_vals h of None \<Rightarrow> val | Some vs \<Rightarrow> vs ! i)
      else Some (h\<lparr>h_keys := (h_keys h)[i := key],
                    h_vals := map_option (\<lambda>vs. vs[i := val]) (h_vals h)\<rparr>,
                 p_uhf_set_isempty_false new_flags i))"
  by (subst uhash_kick_out.simps) (simp only: assms option.case Let_def)

lemma kick_out_total:
  assumes ok: "hash_eq_ok hash_func equal_func" and ns: "ns = 2 ^ k" "k \<le> 31"
  shows "rehash_inv hash_func equal_func ns h nf \<Longrightarrow> card (slots h nf) < ns \<Longrightarrow>
         \<forall>j\<in>slots h nf. \<not> equal_func key (h_keys h ! j) \<Longrightarrow>
         \<exists>h' nf'. uhash_kick_out hash_func (ns - 1) h nf key val = Some (h', nf') \<and>
           rehash_inv hash_func equal_func ns h' nf' \<and>
           entry h' ` slots h' nf' =
             insert (key, map_option (\<lambda>_. val) (h_vals h)) (entry h ` slots h nf) \<and>
           card (slots h' nf') = Suc (card (slots h nf)) \<and>
           (\<forall>j. pending h' j \<longrightarrow> pending h j) \<and>
           h_size h' = h_size h \<and> h_count h' = h_count h \<and> h_occupied h' = h_occupied h \<and>
           (h_vals h' = None \<longleftrightarrow> h_vals h = None)"
proof (induction "card {i. pending h i}" arbitrary: h nf key val rule: less_induct)
  case less
  note inv = less.prems(1) and room = less.prems(2) and fresh = less.prems(3)
  note d = rehash_invD[OF inv]
  let ?s = "hash_func key mod ns"
  have "card {i. placed nf i} < ns" using placed_le_slots[of nf h] room by simp
  from first_empty[OF ns(1) d(1) this, of ?s] obtain n where
    n: "n < ns" "p_uhf_isempty nf (probe ns ?s n)" "\<And>m. m < n \<Longrightarrow> placed nf (probe ns ?s m)"
    by blast
  define i where "i = probe ns ?s n"
  have pos: "0 < ns" using ns by simp
  have ilt: "i < ns" using pos by (simp add: i_def probe_less)
  have iemp: "p_uhf_isempty nf i" using n(2) by (simp add: i_def)
  have "uhash_probe_empty nf (ns - 1) ?s 0 = Some i"
    unfolding i_def using n pos by (intro probe_empty_stops[OF ns]) (simp_all add: placed_def)
  then have pe: "uhash_probe_empty nf (ns - 1) (ulib_uint (hash_func key) AND (ns - 1)) 0 = Some i"
    using start_index(1)[OF ns, of "hash_func key"] by simp
  define nf' where "nf' = nf[i := (False, False)]"
  have nfe: "p_uhf_set_isempty_false nf i = nf'"
    using d(2)[OF ilt] by (simp add: nf'_def flag_defs)
  have path: "n < ns" "probe ns ?s n = i" "\<forall>m<n. placed nf (probe ns ?s m)"
    using n by (simp_all add: i_def)
  have pcond: "(i < h_size h \<and> \<not> p_uhf_iseither (h_flags h) i) \<longleftrightarrow> pending h i"
    by (simp add: pending_def uhash_exists_def)
  show ?case
  proof (cases "pending h i")
    case False
    define hB where "hB = h\<lparr>h_keys := (h_keys h)[i := key],
                    h_vals := map_option (\<lambda>vs. vs[i := val]) (h_vals h)\<rparr>"
    have fB: "h_size hB = h_size h" "h_flags hB = h_flags h" "h_keys hB = (h_keys h)[i := key]"
      "h_vals hB = map_option (\<lambda>vs. vs[i := val]) (h_vals h)"
      "h_count hB = h_count h" "h_occupied hB = h_occupied h"
      by (simp_all add: hB_def)
    note kp = kick_place[OF inv ok fresh ilt iemp False path fB(1-4) nf'_def]
    have "uhash_kick_out hash_func (ns - 1) h nf key val = Some (hB, nf')"
      using False unfolding kick_out_unfold[where hash_func=hash_func and key=key, OF pe] pcond nfe hB_def by simp
    moreover have "card (slots hB nf') = Suc (card (slots h nf))"
      using kp(2,3) slots_finite[of h nf] by simp
    ultimately show ?thesis using kp(1,4,5) fB by (intro exI[of _ hB] exI[of _ nf']) simp
  next
    case True
    define hA where "hA = h\<lparr>h_keys := (h_keys h)[i := key],
                 h_vals := map_option (\<lambda>vs. vs[i := val]) (h_vals h),
                 h_flags := p_uhf_set_isdel_true (h_flags h) i\<rparr>"
    define valA where "valA = (case h_vals h of None \<Rightarrow> val | Some vs \<Rightarrow> vs ! i)"
    have "fst (h_flags h ! i) = False" using True by (simp add: pending_def uhash_exists_def flag_defs)
    then have fA: "h_size hA = h_size h" "h_flags hA = (h_flags h)[i := (False, True)]"
      "h_keys hA = (h_keys h)[i := key]"
      "h_vals hA = map_option (\<lambda>vs. vs[i := val]) (h_vals h)"
      "h_count hA = h_count h" "h_occupied hA = h_occupied h"
      by (simp_all add: hA_def flag_defs)
    note ks = kick_swap[OF inv ok fresh ilt iemp True path fA(1-4) nf'_def]
    have "{j. pending hA j} \<subset> {j. pending h j}" using ks(4) True by auto
    then have less: "card {j. pending hA j} < card {j. pending h j}"
      by (rule psubset_card_mono[OF pending_finite])
    have roomA: "card (slots hA nf') < ns" using room ks(2) by simp
    from less.hyps[OF less ks(1) roomA ks(5), of valA]
    obtain h' nf'' where r0:
      "uhash_kick_out hash_func (ns - 1) hA nf' (h_keys h ! i) valA = Some (h', nf'') \<and>
       rehash_inv hash_func equal_func ns h' nf'' \<and>
       entry h' ` slots h' nf'' =
         insert (h_keys h ! i, map_option (\<lambda>_. valA) (h_vals hA)) (entry hA ` slots hA nf') \<and>
       card (slots h' nf'') = Suc (card (slots hA nf')) \<and>
       (\<forall>j. pending h' j \<longrightarrow> pending hA j) \<and>
       h_size h' = h_size hA \<and> h_count h' = h_count hA \<and> h_occupied h' = h_occupied hA \<and>
       (h_vals h' = None \<longleftrightarrow> h_vals hA = None)"
      by (elim exE) (rule that)
    have r:
      "uhash_kick_out hash_func (ns - 1) hA nf' (h_keys h ! i) valA = Some (h', nf'')"
      "rehash_inv hash_func equal_func ns h' nf''"
      "entry h' ` slots h' nf'' =
         insert (h_keys h ! i, map_option (\<lambda>_. valA) (h_vals hA)) (entry hA ` slots hA nf')"
      "card (slots h' nf'') = Suc (card (slots hA nf'))"
      "\<forall>j. pending h' j \<longrightarrow> pending hA j"
      "h_size h' = h_size hA" "h_count h' = h_count hA" "h_occupied h' = h_occupied hA"
      "h_vals h' = None \<longleftrightarrow> h_vals hA = None"
      using r0 by simp_all
    have run: "uhash_kick_out hash_func (ns - 1) h nf key val = Some (h', nf'')"
      using True r(1) unfolding kick_out_unfold[where hash_func=hash_func and key=key, OF pe] pcond nfe hA_def valA_def by simp
    have e1: "(h_keys h ! i, map_option (\<lambda>_. valA) (h_vals hA)) = entry h i"
      by (cases "h_vals h") (simp_all add: entry_def fA valA_def)
    have e2: "slots h nf = insert i (slots h nf - {i})" using True by (auto simp: slots_def)
    let ?kv = "(key, map_option (\<lambda>_. val) (h_vals h))"
    have "entry h' ` slots h' nf'' = insert (entry h i) (insert ?kv (entry h ` (slots h nf - {i})))"
      unfolding r(3) e1 ks(3) ..
    also have "\<dots> = insert ?kv (insert (entry h i) (entry h ` (slots h nf - {i})))"
      by (rule insert_commute)
    also have "insert (entry h i) (entry h ` (slots h nf - {i})) = entry h ` insert i (slots h nf - {i})"
      by (rule image_insert[symmetric])
    also have "\<dots> = entry h ` slots h nf" using e2 by simp
    finally have en: "entry h' ` slots h' nf'' = insert ?kv (entry h ` slots h nf)" .
    have pd: "\<forall>j. pending h' j \<longrightarrow> pending h j" using r(5) ks(4) by blast
    have vn: "h_vals h' = None \<longleftrightarrow> h_vals h = None" using r(9) by (simp add: fA)
    have cd: "card (slots h' nf'') = Suc (card (slots h nf))" using r(4) ks(2) by simp
    have fs: "h_size h' = h_size h" "h_count h' = h_count h" "h_occupied h' = h_occupied h"
      using r(6,7,8) fA by simp_all
    show ?thesis
      by (intro exI[of _ h'] exI[of _ nf''] conjI run r(2) en cd pd fs vn)
  qed
qed

lemma take_pending:
  assumes inv: "rehash_inv hash_func equal_func ns h nf"
    and j: "pending h j"
    and h': "h_size h' = h_size h" "h_flags h' = (h_flags h)[j := (False, True)]"
      "h_keys h' = h_keys h" "h_vals h' = h_vals h"
  shows "rehash_inv hash_func equal_func ns h' nf"
    and "slots h' nf = slots h nf - {j}"
    and "\<And>i. entry h' i = entry h i"
    and "\<And>i. pending h' i \<longleftrightarrow> pending h i \<and> i \<noteq> j"
    and "\<forall>i\<in>slots h' nf. \<not> equal_func (h_keys h ! j) (h_keys h' ! i)"
proof -
  note d = rehash_invD[OF inv]
  have jlt: "j < h_size h" using j by (simp add: pending_def)
  show pend: "pending h' i \<longleftrightarrow> pending h i \<and> i \<noteq> j" for i
    using jlt d(3) by (auto simp: pending_def uhash_exists_def h' flag_defs nth_list_update)
  have npl: "\<not> placed nf j" using d(7)[of j] j by auto
  show sl: "slots h' nf = slots h nf - {j}"
    using npl by (auto simp: slots_def pend)
  show "entry h' i = entry h i" for i by (simp add: entry_def h')
  have jin: "j \<in> slots h nf" using j by (simp add: slots_def)
  show "\<forall>i\<in>slots h' nf. \<not> equal_func (h_keys h ! j) (h_keys h' ! i)"
    using d(8)[OF jin] by (auto simp: sl h')
  show "rehash_inv hash_func equal_func ns h' nf"
    unfolding rehash_inv_def
  proof (intro conjI allI impI ballI)
    show "length nf = ns" by (rule d(1))
    show "\<not> p_uhf_isdel nf i" if "i < ns" for i by (rule d(2)[OF that])
    show "length (h_flags h') = h_size h'" using d(3) by (simp add: h')
    show "h_size h' \<le> length (h_keys h')" using d(4) by (simp add: h')
    show "ns \<le> length (h_keys h')" using d(5) by (simp add: h')
    show "case h_vals h' of None \<Rightarrow> True | Some vs \<Rightarrow> h_size h' \<le> length vs \<and> ns \<le> length vs"
      using d(6) by (cases "h_vals h") (simp_all add: h')
    show "\<not> pending h' i" if "placed nf i" for i
      using d(7)[OF that] by (simp add: pend)
    show "a = b" if "a \<in> slots h' nf" "b \<in> slots h' nf"
        "equal_func (h_keys h' ! a) (h_keys h' ! b)" for a b
      using that d(8)[of a b] by (simp add: sl h')
    show "\<exists>n<ns. probe ns (hash_func (h_keys h' ! i) mod ns) n = i \<and>
             (\<forall>m<n. placed nf (probe ns (hash_func (h_keys h' ! i) mod ns) m))"
      if "placed nf i" for i
      using d(9)[OF that] by (simp add: h')
  qed
qed

lemma rehash_skip:
  "j \<noteq> h_size h \<Longrightarrow> p_uhf_iseither (h_flags h) j \<Longrightarrow>
   uhash_rehash hash_func new_msk j h new_flags =
     uhash_rehash hash_func new_msk (ulib_uint (j + 1)) h new_flags"
  by (subst uhash_rehash.simps) (simp only: if_True if_False simp_thms)

lemma rehash_done:
  "uhash_rehash hash_func new_msk (h_size h) h new_flags = Some (h, new_flags)"
  by (subst uhash_rehash.simps) (simp only: if_True simp_thms)

lemma rehash_move:
  assumes "j \<noteq> h_size h" "\<not> p_uhf_iseither (h_flags h) j"
    and "uhash_kick_out hash_func new_msk
                (h\<lparr>h_flags := p_uhf_set_isdel_true (h_flags h) j\<rparr>) new_flags
                (h_keys h ! j)
                (case h_vals h of None \<Rightarrow> 0 | Some vs \<Rightarrow> vs ! j) = Some (h', new_flags')"
  shows "uhash_rehash hash_func new_msk j h new_flags =
     uhash_rehash hash_func new_msk (ulib_uint (j + 1)) h' new_flags'"
  by (subst uhash_rehash.simps) (simp only: assms if_False option.case prod.case simp_thms)

lemma rehash_total:
  fixes h :: "('k, 'v::zero) UHash"
  assumes ok: "hash_eq_ok hash_func equal_func" and ns: "ns = 2 ^ k" "k \<le> 31"
  shows "rehash_inv hash_func equal_func ns h nf \<Longrightarrow> j \<le> h_size h \<Longrightarrow> h_size h \<le> 2 ^ 31 \<Longrightarrow>
         \<forall>i<j. \<not> pending h i \<Longrightarrow> card (slots h nf) < ns \<Longrightarrow>
         \<exists>h' nf'. uhash_rehash hash_func (ns - 1) j h nf = Some (h', nf') \<and>
           rehash_inv hash_func equal_func ns h' nf' \<and>
           entry h' ` slots h' nf' = entry h ` slots h nf \<and>
           card (slots h' nf') = card (slots h nf) \<and>
           (\<forall>i. \<not> pending h' i) \<and>
           h_size h' = h_size h \<and> h_count h' = h_count h \<and> h_occupied h' = h_occupied h \<and>
           (h_vals h' = None \<longleftrightarrow> h_vals h = None)"
proof (induction "h_size h - j" arbitrary: j h nf rule: less_induct)
  case less
  note inv = less.prems(1) and jle = less.prems(2) and szle = less.prems(3)
    and dn = less.prems(4) and room = less.prems(5)
  show ?case
  proof (cases "j = h_size h")
    case True
    have "\<forall>i. \<not> pending h i" using dn True by (auto simp: pending_def)
    then show ?thesis using inv True rehash_done[of hash_func "ns - 1" h nf]
      by (intro exI[of _ h] exI[of _ nf]) simp
  next
    case False
    then have jlt: "j < h_size h" using jle by simp
    have "j + 1 < 2 ^ 32" using jlt szle by simp
    then have j1: "ulib_uint (j + 1) = Suc j" by (simp add: ulib_uint_id)
    show ?thesis
    proof (cases "pending h j")
      case np: False
      then have e: "p_uhf_iseither (h_flags h) j" using jlt by (simp add: pending_def uhash_exists_def)
      have d': "\<forall>i<Suc j. \<not> pending h i" using dn np by (auto simp: less_Suc_eq)
      have m: "h_size h - Suc j < h_size h - j" using jlt by simp
      from less.hyps[OF m inv _ szle d' room] jlt
      have "\<exists>h' nf'. uhash_rehash hash_func (ns - 1) (Suc j) h nf = Some (h', nf') \<and>
           rehash_inv hash_func equal_func ns h' nf' \<and>
           entry h' ` slots h' nf' = entry h ` slots h nf \<and>
           card (slots h' nf') = card (slots h nf) \<and>
           (\<forall>i. \<not> pending h' i) \<and>
           h_size h' = h_size h \<and> h_count h' = h_count h \<and> h_occupied h' = h_occupied h \<and>
           (h_vals h' = None \<longleftrightarrow> h_vals h = None)" by simp
      then show ?thesis unfolding rehash_skip[OF False e] j1 .
    next
      case pj: True
      then have ne: "\<not> p_uhf_iseither (h_flags h) j" by (simp add: pending_def uhash_exists_def)
      define h0 where "h0 = h\<lparr>h_flags := p_uhf_set_isdel_true (h_flags h) j\<rparr>"
      define val where "val = (case h_vals h of None \<Rightarrow> 0 | Some vs \<Rightarrow> vs ! j)"
      have "fst (h_flags h ! j) = False" using ne by (simp add: flag_defs)
      then have f0: "h_size h0 = h_size h" "h_flags h0 = (h_flags h)[j := (False, True)]"
        "h_keys h0 = h_keys h" "h_vals h0 = h_vals h"
        "h_count h0 = h_count h" "h_occupied h0 = h_occupied h"
        by (simp_all add: h0_def flag_defs)
      note tp = take_pending[OF inv pj f0(1-4)]
      have jin: "j \<in> slots h nf" using pj by (simp add: slots_def)
      have c0: "Suc (card (slots h0 nf)) = card (slots h nf)"
        unfolding tp(2) using slots_finite[of h nf] jin by (rule card_Suc_Diff1)
      then have room0: "card (slots h0 nf) < ns" using room by simp
      have fresh0: "\<forall>i\<in>slots h0 nf. \<not> equal_func (h_keys h ! j) (h_keys h0 ! i)" by (rule tp(5))
      from kick_out_total[OF ok ns tp(1) room0 fresh0, of val]
      obtain h1 nf1 where r0:
        "uhash_kick_out hash_func (ns - 1) h0 nf (h_keys h ! j) val = Some (h1, nf1) \<and>
         rehash_inv hash_func equal_func ns h1 nf1 \<and>
         entry h1 ` slots h1 nf1 =
           insert (h_keys h ! j, map_option (\<lambda>_. val) (h_vals h0)) (entry h0 ` slots h0 nf) \<and>
         card (slots h1 nf1) = Suc (card (slots h0 nf)) \<and>
         (\<forall>i. pending h1 i \<longrightarrow> pending h0 i) \<and>
         h_size h1 = h_size h0 \<and> h_count h1 = h_count h0 \<and> h_occupied h1 = h_occupied h0 \<and>
         (h_vals h1 = None \<longleftrightarrow> h_vals h0 = None)"
        by (elim exE) (rule that)
      have r: "uhash_kick_out hash_func (ns - 1) h0 nf (h_keys h ! j) val = Some (h1, nf1)"
        "rehash_inv hash_func equal_func ns h1 nf1"
        "entry h1 ` slots h1 nf1 =
           insert (h_keys h ! j, map_option (\<lambda>_. val) (h_vals h0)) (entry h0 ` slots h0 nf)"
        "card (slots h1 nf1) = Suc (card (slots h0 nf))"
        "\<forall>i. pending h1 i \<longrightarrow> pending h0 i"
        "h_size h1 = h_size h0" "h_count h1 = h_count h0" "h_occupied h1 = h_occupied h0"
        "h_vals h1 = None \<longleftrightarrow> h_vals h0 = None"
        using r0 by blast+
      have step: "uhash_rehash hash_func (ns - 1) j h nf =
                  uhash_rehash hash_func (ns - 1) (Suc j) h1 nf1"
        using rehash_move[OF False ne r(1)[unfolded h0_def val_def]] j1 by simp
      have e1: "(h_keys h ! j, map_option (\<lambda>_. val) (h_vals h0)) = entry h j"
        by (cases "h_vals h") (simp_all add: entry_def f0 val_def)
      have "entry h0 ` slots h0 nf = entry h ` (slots h nf - {j})"
        unfolding tp(2) by (rule image_cong[OF refl]) (rule tp(3))
      then have "entry h1 ` slots h1 nf1 = insert (entry h j) (entry h ` (slots h nf - {j}))"
        unfolding r(3) e1 by simp
      also have "\<dots> = entry h ` insert j (slots h nf - {j})" by (rule image_insert[symmetric])
      also have "insert j (slots h nf - {j}) = slots h nf" using jin by auto
      finally have en1: "entry h1 ` slots h1 nf1 = entry h ` slots h nf" .
      have cd1: "card (slots h1 nf1) = card (slots h nf)" using r(4) c0 by simp
      have d1: "\<forall>i<Suc j. \<not> pending h1 i"
        using r(5) tp(4) dn by (auto simp: less_Suc_eq)
      have m: "h_size h1 - Suc j < h_size h - j" using jlt r(6) f0(1) by simp
      have jle1: "Suc j \<le> h_size h1" using jlt r(6) f0(1) by simp
      have szle1: "h_size h1 \<le> 2 ^ 31" using szle r(6) f0(1) by simp
      have room1: "card (slots h1 nf1) < ns" using room cd1 by simp
      from less.hyps[OF m r(2) jle1 szle1 d1 room1]
      obtain h' nf' where q0:
        "uhash_rehash hash_func (ns - 1) (Suc j) h1 nf1 = Some (h', nf') \<and>
           rehash_inv hash_func equal_func ns h' nf' \<and>
           entry h' ` slots h' nf' = entry h1 ` slots h1 nf1 \<and>
           card (slots h' nf') = card (slots h1 nf1) \<and>
           (\<forall>i. \<not> pending h' i) \<and>
           h_size h' = h_size h1 \<and> h_count h' = h_count h1 \<and> h_occupied h' = h_occupied h1 \<and>
           (h_vals h' = None \<longleftrightarrow> h_vals h1 = None)"
        by (elim exE) (rule that)
      show ?thesis
        using q0 en1 cd1 r(6-9) f0 unfolding step
        by (intro exI[of _ h'] exI[of _ nf']) simp
    qed
  qed
qed

section \<open>Resize\<close>

subsection \<open>Sizes and bounds\<close>

lemma round_up_pow2_cases:
  "a + m = 32 \<Longrightarrow> round_up_pow2 m (2 ^ a) x = 0 \<or>
     (\<exists>b. a \<le> b \<and> b \<le> 31 \<and> round_up_pow2 m (2 ^ a) x = 2 ^ b)"
proof (induction m arbitrary: a)
  case 0
  then show ?case by simp
next
  case (Suc m)
  show ?case
  proof (cases "x \<le> 2 ^ a")
    case True
    then show ?thesis using Suc.prems by auto
  next
    case False
    have "round_up_pow2 m (2 ^ Suc a) x = 0 \<or>
     (\<exists>b. Suc a \<le> b \<and> b \<le> 31 \<and> round_up_pow2 m (2 ^ Suc a) x = 2 ^ b)"
      using Suc.prems by (intro Suc.IH) simp
    then show ?thesis using False by (auto intro: Suc_leD)
  qed
qed

lemma round_up_pow2_least:
  "a + m = 32 \<Longrightarrow> x \<le> 2 ^ 31 \<Longrightarrow> (a = 0 \<or> 2 ^ (a - 1) < x) \<Longrightarrow>
     \<exists>b. a \<le> b \<and> b \<le> 31 \<and> round_up_pow2 m (2 ^ a) x = 2 ^ b \<and> x \<le> 2 ^ b \<and>
         (b = 0 \<or> 2 ^ (b - 1) < x)"
proof (induction m arbitrary: a)
  case 0
  then have "2 ^ 31 < x" by simp
  then show ?case using 0 by simp
next
  case (Suc m)
  show ?case
  proof (cases "x \<le> 2 ^ a")
    case True
    then show ?thesis using Suc.prems by auto
  next
    case False
    have "\<exists>b. Suc a \<le> b \<and> b \<le> 31 \<and> round_up_pow2 m (2 ^ Suc a) x = 2 ^ b \<and> x \<le> 2 ^ b \<and>
         (b = 0 \<or> 2 ^ (b - 1) < x)"
      using Suc.prems False by (intro Suc.IH) simp_all
    then show ?thesis using False by (auto intro: Suc_leD)
  qed
qed

lemma resize_size_pow2: "\<exists>k. 2 \<le> k \<and> k \<le> 31 \<and> uhash_resize_size n = 2 ^ k"
proof -
  from round_up_pow2_cases[of 0 32 n]
  consider "ulib_uint_next_power_2 n = 0"
    | b where "b \<le> 31" "ulib_uint_next_power_2 n = 2 ^ b"
    by (auto simp: ulib_uint_next_power_2_def)
  then show ?thesis
  proof cases
    case 1
    then show ?thesis by (auto simp: uhash_resize_size_def intro: exI[of _ 2])
  next
    case 2
    show ?thesis
    proof (cases "b < 2")
      case True
      then have "(2::nat) ^ b < 4" using power_strict_increasing[of b 2 "2::nat"] by simp
      then show ?thesis using 2 by (auto simp: uhash_resize_size_def intro: exI[of _ 2])
    next
      case False
      then have "(2::nat) ^ 2 \<le> 2 ^ b" by (intro power_increasing) simp_all
      then show ?thesis using 2 False by (auto simp: uhash_resize_size_def Let_def intro: exI[of _ b])
    qed
  qed
qed

text \<open>Below \<open>2 ^ 31\<close> the size a resize works with is the least power of two, from 4 on,
  that is not below the request.\<close>

lemma resize_size_least:
  assumes "n \<le> 2 ^ 31"
  shows "\<exists>k. 2 \<le> k \<and> k \<le> 31 \<and> uhash_resize_size n = 2 ^ k \<and> n \<le> 2 ^ k \<and>
           (k = 2 \<or> 2 ^ (k - 1) < n)"
proof -
  from round_up_pow2_least[of 0 32 n] assms
  obtain b where b: "b \<le> 31" "ulib_uint_next_power_2 n = 2 ^ b" "n \<le> 2 ^ b"
    "b = 0 \<or> 2 ^ (b - 1) < n"
    by (auto simp: ulib_uint_next_power_2_def)
  show ?thesis
  proof (cases "b < 2")
    case True
    then have "(2::nat) ^ b < 4" using power_strict_increasing[of b 2 "2::nat"] by simp
    then show ?thesis using b by (auto simp: uhash_resize_size_def intro!: exI[of _ 2])
  next
    case False
    then have "(2::nat) ^ 2 \<le> 2 ^ b" by (intro power_increasing) simp_all
    then show ?thesis using b False by (auto simp: uhash_resize_size_def Let_def intro!: exI[of _ b])
  qed
qed

lemma upper_bound_less: "3 \<le> n \<Longrightarrow> p_uhash_upper_bound n < n"
  by (simp add: p_uhash_upper_bound_def)

lemma upper_bound_mono: "m \<le> n \<Longrightarrow> p_uhash_upper_bound m \<le> p_uhash_upper_bound n"
  by (simp add: p_uhash_upper_bound_def div_le_mono)

lemma upper_bound_double: "0 < n \<Longrightarrow> n < p_uhash_upper_bound (2 * n)"
  by (simp add: p_uhash_upper_bound_def)

lemma upper_bound_half: "2 * c < n \<Longrightarrow> c < p_uhash_upper_bound n"
  by (simp add: p_uhash_upper_bound_def)

subsection \<open>Reallocation\<close>

lemma length_ulib_realloc: "length (ulib_realloc xs n fresh) = n"
  by (simp add: ulib_realloc_def)

lemma nth_ulib_realloc: "i < length xs \<Longrightarrow> i < n \<Longrightarrow> ulib_realloc xs n fresh ! i = xs ! i"
  by (simp add: ulib_realloc_def nth_append)

lemma placed_0xaa: "\<not> placed (flags_0xaa ns) i"
  by (simp add: placed_def flags_0xaa_def flag_defs)

lemma entries_pending: "entries h = entry h ` {i. pending h i}"
  by (auto simp: entries_def pending_def)

text \<open>The rehash starts in a state that satisfies its invariant.\<close>

lemma rehash_inv_init:
  assumes t: "table_ok hash_func equal_func h" and ok: "hash_eq_ok hash_func equal_func"
    and h1: "h_size h1 = h_size h" "h_flags h1 = h_flags h"
      "\<forall>i<h_size h. h_keys h1 ! i = h_keys h ! i" "\<forall>i<h_size h. entry h1 i = entry h i"
      "h_size h \<le> length (h_keys h1)" "ns \<le> length (h_keys h1)"
      "case h_vals h1 of None \<Rightarrow> True | Some vs \<Rightarrow> h_size h \<le> length vs \<and> ns \<le> length vs"
  shows "rehash_inv hash_func equal_func ns h1 (flags_0xaa ns)"
    and "slots h1 (flags_0xaa ns) = {i. pending h1 i}"
    and "card (slots h1 (flags_0xaa ns)) = h_count h"
    and "entry h1 ` slots h1 (flags_0xaa ns) = entries h"
proof -
  have c: "counts_ok h" by (rule table_okD(1)[OF t])
  have pend: "pending h1 i = pending h i" for i
    by (simp add: pending_def uhash_exists_def h1)
  show sl: "slots h1 (flags_0xaa ns) = {i. pending h1 i}"
    by (simp add: slots_def placed_0xaa)
  have "{i. pending h1 i} = {i. pending h i}" by (simp add: pend)
  also have "\<dots> = {i. i < h_size h \<and> uhash_exists h i}" by (simp add: pending_def)
  finally have "{i. pending h1 i} = {i. i < h_size h \<and> uhash_exists h i}" .
  then have "card (slots h1 (flags_0xaa ns)) = length (live_buckets h)"
    by (simp only: sl length_live_buckets)
  then show "card (slots h1 (flags_0xaa ns)) = h_count h"
    using c by (simp add: counts_ok_def)
  have "entry h1 ` {i. pending h i} = entry h ` {i. pending h i}"
    by (rule image_cong[OF refl]) (simp add: pending_def h1(4))
  then show "entry h1 ` slots h1 (flags_0xaa ns) = entries h"
    by (simp add: sl pend entries_pending)
  show "rehash_inv hash_func equal_func ns h1 (flags_0xaa ns)"
    unfolding rehash_inv_def
  proof (intro conjI allI impI ballI)
    show "length (flags_0xaa ns) = ns" by (simp add: flags_0xaa_def)
    show "\<not> p_uhf_isdel (flags_0xaa ns) i" if "i < ns" for i
      using that by (simp add: flags_0xaa_def flag_defs)
    show "length (h_flags h1) = h_size h1" using c by (simp add: h1 counts_ok_def)
    show "h_size h1 \<le> length (h_keys h1)" using h1 by simp
    show "ns \<le> length (h_keys h1)" using h1 by simp
    show "case h_vals h1 of None \<Rightarrow> True | Some vs \<Rightarrow> h_size h1 \<le> length vs \<and> ns \<le> length vs"
      using h1(7) unfolding h1(1) .
    show "\<not> pending h1 i" if "placed (flags_0xaa ns) i" for i
      using that by (simp add: placed_0xaa)
    show "a = b" if "a \<in> slots h1 (flags_0xaa ns)" "b \<in> slots h1 (flags_0xaa ns)"
        "equal_func (h_keys h1 ! a) (h_keys h1 ! b)" for a b
    proof -
      have "pending h a" "pending h b" using that(1,2) by (simp_all add: sl pend)
      then have a: "a < h_size h" "uhash_exists h a" and b: "b < h_size h" "uhash_exists h b"
        by (simp_all add: pending_def)
      have "equal_func (h_keys h ! a) (h_keys h ! b)" using that(3) a(1) b(1) h1(3) by simp
      then show ?thesis by (rule live_keys_distinct[OF t ok a b])
    qed
    show "\<exists>n<ns. probe ns (hash_func (h_keys h1 ! i) mod ns) n = i \<and>
             (\<forall>m<n. placed (flags_0xaa ns) (probe ns (hash_func (h_keys h1 ! i) mod ns) m))"
      if "placed (flags_0xaa ns) i" for i
      using that by (simp add: placed_0xaa)
  qed
qed

text \<open>When nothing is pending any more, the new flags and the arrays form a well-formed
  table with the elements of the state.\<close>

lemma rehash_inv_final:
  assumes inv: "rehash_inv hash_func equal_func ns h2 nf" and ok: "hash_eq_ok hash_func equal_func"
    and ns: "ns = 2 ^ k" "2 \<le> k" "k \<le> 31"
    and np: "\<forall>i. \<not> pending h2 i" and room: "card (slots h2 nf) < ns"
    and f: "h_size h' = ns" "h_flags h' = nf" "h_count h' = card (slots h2 nf)"
      "h_occupied h' = card (slots h2 nf)" "ns \<le> length (h_keys h')"
      "\<forall>i<ns. h_keys h' ! i = h_keys h2 ! i" "\<forall>i<ns. entry h' i = entry h2 i"
      "case h_vals h' of None \<Rightarrow> True | Some vs \<Rightarrow> ns \<le> length vs"
  shows "table_ok hash_func equal_func h'" and "entries h' = entry h2 ` slots h2 nf"
proof -
  note d = rehash_invD[OF inv]
  have sl: "slots h2 nf = {i. placed nf i}" using np by (simp add: slots_def)
  have pl: "placed nf i \<longleftrightarrow> i < ns \<and> \<not> p_uhf_isempty nf i" for i
    by (simp add: placed_def d(1))
  have ex: "uhash_exists h' i \<longleftrightarrow> \<not> p_uhf_isempty nf i" if "i < ns" for i
    using d(2)[OF that] by (auto simp: uhash_exists_def f flag_defs)
  have live: "{i. i < h_size h' \<and> uhash_exists h' i} = {i. placed nf i}"
    using ex by (auto simp: f pl)
  have used: "{i. i < h_size h' \<and> \<not> p_uhf_isempty (h_flags h') i} = {i. placed nf i}"
    by (auto simp: f pl)
  have four: "4 \<le> ns"
    using power_increasing[of 2 k "2::nat"] ns by simp
  have p': "pow2_size h'" using ns by (auto simp: pow2_size_def f)
  have ll: "length (live_buckets h') = card (slots h2 nf)"
    by (simp only: length_live_buckets live sl)
  have lu: "length (used_buckets h') = card (slots h2 nf)"
    by (simp only: length_used_buckets used sl)
  have c': "counts_ok h'"
    unfolding counts_ok_def ll lu using p' four d(1) by (simp add: f(1,2,3,4))
  have ac': "arrays_cover h'"
    using f(5,8) d(1) by (simp add: arrays_cover_def f(1,2) split: option.splits)
  have "entries h' = entry h' ` {i. placed nf i}"
    unfolding entries_def using live by auto
  also have "\<dots> = entry h2 ` {i. placed nf i}"
    by (rule image_cong[OF refl]) (simp add: pl f(7))
  finally show "entries h' = entry h2 ` slots h2 nf" by (simp add: sl)
  have find: "uhash_get hash_func equal_func h' (h_keys h' ! i) = Some i"
    if i: "i < h_size h'" "uhash_exists h' i" for i
  proof -
    have ip: "placed nf i" using i ex[of i] by (simp add: f pl)
    have ki: "h_keys h' ! i = h_keys h2 ! i" using i(1) f by simp
    let ?s = "hash_func (h_keys h2 ! i) mod ns"
    from d(9)[OF ip] obtain n where n: "n < ns" "probe ns ?s n = i"
      "\<forall>m<n. placed nf (probe ns ?s m)" by blast
    have "h_stops hash_func equal_func h' (h_keys h' ! i) n"
      unfolding h_stops_def stops_at_def ki f(1,2)
    proof (intro conjI allI impI)
      show "n < ns" by (rule n(1))
      have "equal_func (h_keys h' ! i) (h_keys h2 ! i)"
        using hash_eq_okD(1)[OF ok] ki by simp
      then show "\<not> probe_cont equal_func nf (h_keys h') (h_keys h2 ! i) (probe ns ?s n)"
        using n(2) d(2)[of i] ip by (simp add: probe_cont_def pl)
      fix m assume m: "m < n"
      let ?b = "probe ns ?s m"
      have bp: "placed nf ?b" using n(3) m by simp
      have "?b \<noteq> i"
      proof
        assume "?b = i"
        then have "probe ns ?s m = probe ns ?s n" using n(2) by simp
        then have "m = n" using m n(1) by (intro probe_inj[OF ns(1), of m n ?s]) simp_all
        then show False using m by simp
      qed
      then have "\<not> equal_func (h_keys h2 ! ?b) (h_keys h2 ! i)"
        using d(8)[of ?b i] bp ip by (auto simp: sl)
      moreover have "h_keys h' ! ?b = h_keys h2 ! ?b" using bp f(6) by (simp add: pl)
      ultimately show "probe_cont equal_func nf (h_keys h') (h_keys h2 ! i) ?b"
        using bp by (simp add: probe_cont_def pl)
    qed
    then show ?thesis
      using stops_get[OF p' ac', of hash_func equal_func "h_keys h' ! i" n i] n(2) i(2) ki
      by (simp add: h_probe_def f(1))
  qed
  have occ: "h_occupied h' < h_size h'" using room by (simp add: f)
  show "table_ok hash_func equal_func h'"
    unfolding table_ok_def using c' ac' occ find by simp
qed

lemma table_ok_map_vals:
  assumes t: "table_ok hash_func equal_func h" and sz: "0 < h_size h"
  shows "uhash_is_map h \<longleftrightarrow> h_vals h \<noteq> None"
  using table_okD(4)[OF t] sz by (auto simp: uhash_is_map_def)

lemma expand_ok:
  assumes t: "table_ok hash_func equal_func h"
    and al: "h_size h < ns \<longrightarrow>
             realloc_keys al \<noteq> None \<and> (uhash_is_map h \<longrightarrow> realloc_vals al \<noteq> None)"
    and ns: "0 < ns"
  shows "\<exists>h1. uhash_resize_expand al h ns = Inr h1 \<and>
           h_size h1 = h_size h \<and> h_flags h1 = h_flags h \<and>
           h_count h1 = h_count h \<and> h_occupied h1 = h_occupied h \<and>
           (\<forall>i<h_size h. h_keys h1 ! i = h_keys h ! i) \<and>
           (\<forall>i<h_size h. entry h1 i = entry h i) \<and>
           h_size h \<le> length (h_keys h1) \<and> ns \<le> length (h_keys h1) \<and>
           (case h_vals h1 of None \<Rightarrow> True
            | Some vs \<Rightarrow> h_size h \<le> length vs \<and> ns \<le> length vs) \<and>
           (h_vals h1 \<noteq> None \<longleftrightarrow> uhash_is_map h) \<and>
           (ns < h_size h \<longrightarrow> h_vals h1 = h_vals h)"
proof (cases "h_size h < ns")
  case False
  have ac: "arrays_cover h" by (rule table_okD(2)[OF t])
  have pos: "0 < h_size h" using False ns by simp
  have "uhash_resize_expand al h ns = Inr h" using False by (simp add: uhash_resize_expand_def)
  moreover have "h_size h \<le> length (h_keys h)" "ns \<le> length (h_keys h)"
    using ac False by (simp_all add: arrays_cover_def)
  moreover have "case h_vals h of None \<Rightarrow> True
            | Some vs \<Rightarrow> h_size h \<le> length vs \<and> ns \<le> length vs"
    using ac False by (auto simp: arrays_cover_def split: option.splits)
  ultimately show ?thesis using table_ok_map_vals[OF t pos] by (intro exI[of _ h]) simp
next
  case True
  have ac: "arrays_cover h" by (rule table_okD(2)[OF t])
  obtain fk where fk: "realloc_keys al = Some fk"
    using al True by auto
  have lk: "h_size h \<le> length (h_keys h)" using ac by (simp add: arrays_cover_def)
  show ?thesis
  proof (cases "uhash_is_map h")
    case nm: False
    then have vn: "h_vals h = None" by (simp add: uhash_is_map_def)
    define h1 where "h1 = h\<lparr>h_keys := ulib_realloc (h_keys h) ns fk\<rparr>"
    have f1: "h_size h1 = h_size h" "h_flags h1 = h_flags h" "h_count h1 = h_count h"
      "h_occupied h1 = h_occupied h" "h_keys h1 = ulib_realloc (h_keys h) ns fk"
      "h_vals h1 = None" by (simp_all add: h1_def vn)
    have "uhash_resize_expand al h ns = Inr h1"
      using True nm fk by (simp add: uhash_resize_expand_def Let_def uhash_is_map_def h1_def)
    moreover have k1: "\<forall>i<h_size h. h_keys h1 ! i = h_keys h ! i"
      using lk True by (simp add: f1 nth_ulib_realloc)
    moreover have "\<forall>i<h_size h. entry h1 i = entry h i"
      using k1 by (simp add: entry_def f1 vn)
    ultimately show ?thesis using True nm
      by (intro exI[of _ h1]) (simp add: f1 length_ulib_realloc)
  next
    case m: True
    obtain fv where fv: "realloc_vals al = Some fv"
      using al True m by auto
    define vs0 where "vs0 = (case h_vals h of None \<Rightarrow> [] | Some vs \<Rightarrow> vs)"
    define h1 where "h1 = h\<lparr>h_keys := ulib_realloc (h_keys h) ns fk,
                           h_vals := Some (ulib_realloc vs0 ns fv)\<rparr>"
    have f1: "h_size h1 = h_size h" "h_flags h1 = h_flags h" "h_count h1 = h_count h"
      "h_occupied h1 = h_occupied h" "h_keys h1 = ulib_realloc (h_keys h) ns fk"
      "h_vals h1 = Some (ulib_realloc vs0 ns fv)" by (simp_all add: h1_def)
    have "uhash_resize_expand al h ns = Inr h1"
      using True m fk fv
      by (simp add: uhash_resize_expand_def Let_def uhash_is_map_def h1_def vs0_def)
    moreover have k1: "\<forall>i<h_size h. h_keys h1 ! i = h_keys h ! i"
      using lk True by (simp add: f1 nth_ulib_realloc)
    moreover have "\<forall>i<h_size h. entry h1 i = entry h i"
    proof (intro allI impI)
      fix i assume i: "i < h_size h"
      then have "h_vals h \<noteq> None" using table_ok_map_vals[OF t, of ] m by auto
      then obtain vs where vs: "h_vals h = Some vs" by auto
      then have "i < length vs" using ac i by (simp add: arrays_cover_def)
      then have "ulib_realloc vs0 ns fv ! i = vs ! i"
        using i True by (simp add: vs0_def vs nth_ulib_realloc)
      then show "entry h1 i = entry h i" using k1 i by (simp add: entry_def f1 vs)
    qed
    ultimately show ?thesis using True m
      by (intro exI[of _ h1]) (simp add: f1 length_ulib_realloc)
  qed
qed

lemma shrink_ok_conj:
  assumes al: "ns < h_size h2 \<longrightarrow>
               realloc_keys al \<noteq> None \<and> (h_vals h2 \<noteq> None \<longrightarrow> realloc_vals al \<noteq> None)"
    and len: "ns \<le> length (h_keys h2)"
      "case h_vals h2 of None \<Rightarrow> True | Some vs \<Rightarrow> ns \<le> length vs"
  shows "h_size (uhash_resize_shrink al h2 ns) = h_size h2 \<and>
     h_count (uhash_resize_shrink al h2 ns) = h_count h2 \<and>
     ns \<le> length (h_keys (uhash_resize_shrink al h2 ns)) \<and>
     (\<forall>i<ns. h_keys (uhash_resize_shrink al h2 ns) ! i = h_keys h2 ! i) \<and>
     (\<forall>i<ns. entry (uhash_resize_shrink al h2 ns) i = entry h2 i) \<and>
     (case h_vals (uhash_resize_shrink al h2 ns) of None \<Rightarrow> True | Some vs \<Rightarrow> ns \<le> length vs) \<and>
     (h_vals (uhash_resize_shrink al h2 ns) = None \<longleftrightarrow> h_vals h2 = None)"
proof (cases "ns < h_size h2")
  case False
  then have e: "uhash_resize_shrink al h2 ns = h2" by (simp add: uhash_resize_shrink_def)
  show ?thesis unfolding e using len by simp
next
  case True
  obtain fk where fk: "realloc_keys al = Some fk" using al True by auto
  let ?h3 = "uhash_resize_shrink al h2 ns"
  have s1: "h_size ?h3 = h_size h2" "h_count ?h3 = h_count h2"
    by (simp_all add: uhash_resize_shrink_def)
  have s2: "ns \<le> length (h_keys ?h3)"
    using len(1) True by (simp add: uhash_resize_shrink_def fk length_ulib_realloc)
  have k: "\<forall>i<ns. h_keys ?h3 ! i = h_keys h2 ! i"
    using len(1) True by (simp add: uhash_resize_shrink_def fk nth_ulib_realloc)
  have s3: "case h_vals ?h3 of None \<Rightarrow> True | Some vs \<Rightarrow> ns \<le> length vs"
    using len(2) al True
    by (cases "h_vals h2") (auto simp: uhash_resize_shrink_def length_ulib_realloc)
  have s4: "h_vals ?h3 = None \<longleftrightarrow> h_vals h2 = None"
    using al True by (cases "h_vals h2") (auto simp: uhash_resize_shrink_def)
  have s5: "\<forall>i<ns. entry ?h3 i = entry h2 i"
  proof (intro allI impI)
    fix i assume i: "i < ns"
    show "entry ?h3 i = entry h2 i"
    proof (cases "h_vals h2")
      case None
      then show ?thesis using k i True by (simp add: entry_def uhash_resize_shrink_def)
    next
      case (Some vs)
      then obtain fv where fv: "realloc_vals al = Some fv" using al True by auto
      have "i < length vs" using len(2) i Some by simp
      then show ?thesis using k i Some True
        by (simp add: entry_def uhash_resize_shrink_def fv nth_ulib_realloc)
    qed
  qed
  show ?thesis using s1 s2 k s5 s3 s4 by (intro conjI)
qed

lemma shrink_ok:
  assumes al: "ns < h_size h2 \<longrightarrow>
               realloc_keys al \<noteq> None \<and> (h_vals h2 \<noteq> None \<longrightarrow> realloc_vals al \<noteq> None)"
    and len: "ns \<le> length (h_keys h2)"
      "case h_vals h2 of None \<Rightarrow> True | Some vs \<Rightarrow> ns \<le> length vs"
  shows "h_size (uhash_resize_shrink al h2 ns) = h_size h2"
    and "h_count (uhash_resize_shrink al h2 ns) = h_count h2"
    and "ns \<le> length (h_keys (uhash_resize_shrink al h2 ns))"
    and "\<forall>i<ns. h_keys (uhash_resize_shrink al h2 ns) ! i = h_keys h2 ! i"
    and "\<forall>i<ns. entry (uhash_resize_shrink al h2 ns) i = entry h2 i"
    and "case h_vals (uhash_resize_shrink al h2 ns) of None \<Rightarrow> True | Some vs \<Rightarrow> ns \<le> length vs"
    and "h_vals (uhash_resize_shrink al h2 ns) = None \<longleftrightarrow> h_vals h2 = None"
  using shrink_ok_conj[OF assms] by blast+

lemma alloc_ok_suffice: "alloc_ok al \<Longrightarrow> allocs_suffice al h ns"
  by (simp add: alloc_ok_def allocs_suffice_def)

lemma uhash_resize_noop:
  "p_uhash_upper_bound (uhash_resize_size n) \<le> h_count h \<Longrightarrow>
   uhash_resize hash_func al h n = Some (UHASH_OK, h)"
  by (simp add: uhash_resize_def Let_def)

text \<open>
  The first part of a resize that is not refused: when the arrays can grow, the
  rehash moves every element to the new flags.
\<close>

lemma resize_rehash:
  fixes h :: "('k, 'v::zero) UHash"
  assumes t: "table_ok hash_func equal_func h" and ok: "hash_eq_ok hash_func equal_func"
    and al: "h_size h < uhash_resize_size n \<longrightarrow>
             realloc_keys al \<noteq> None \<and> (uhash_is_map h \<longrightarrow> realloc_vals al \<noteq> None)"
    and cnt: "h_count h < p_uhash_upper_bound (uhash_resize_size n)"
  shows "\<exists>h1 h2 nf. uhash_resize_expand al h (uhash_resize_size n) = Inr h1 \<and>
           arrays_cover h1 \<and>
           uhash_rehash hash_func (uhash_resize_size n - 1) 0 h1
             (flags_0xaa (uhash_resize_size n)) = Some (h2, nf) \<and>
           rehash_inv hash_func equal_func (uhash_resize_size n) h2 nf \<and>
           entry h2 ` slots h2 nf = entries h \<and> card (slots h2 nf) = h_count h \<and>
           (\<forall>i. \<not> pending h2 i) \<and> h_size h2 = h_size h \<and> h_count h2 = h_count h \<and>
           (h_vals h2 \<noteq> None \<longleftrightarrow> uhash_is_map h) \<and>
           (uhash_resize_size n < h_size h \<longrightarrow> (h_vals h2 = None \<longleftrightarrow> h_vals h = None))"
proof -
  define ns where "ns = uhash_resize_size n"
  obtain k where k: "2 \<le> k" "k \<le> 31" "ns = 2 ^ k"
    using resize_size_pow2[of n] by (auto simp: ns_def)
  have four: "4 \<le> ns" using power_increasing[of 2 k "2::nat"] k by simp
  have cns: "h_count h < ns" using cnt upper_bound_less[of ns] four by (simp add: ns_def)
  have szle: "h_size h \<le> 2 ^ 31" using count_le_size(2)[OF table_okD(1)[OF t]] .
  have nspos: "0 < ns" using four by simp
  have al': "h_size h < ns \<longrightarrow>
             realloc_keys al \<noteq> None \<and> (uhash_is_map h \<longrightarrow> realloc_vals al \<noteq> None)"
    using al by (simp add: ns_def)
  from expand_ok[OF t al' nspos] obtain h1 where h1:
    "uhash_resize_expand al h ns = Inr h1"
    "h_size h1 = h_size h" "h_flags h1 = h_flags h"
    "h_count h1 = h_count h" "h_occupied h1 = h_occupied h"
    "\<forall>i<h_size h. h_keys h1 ! i = h_keys h ! i"
    "\<forall>i<h_size h. entry h1 i = entry h i"
    "h_size h \<le> length (h_keys h1)" "ns \<le> length (h_keys h1)"
    "case h_vals h1 of None \<Rightarrow> True | Some vs \<Rightarrow> h_size h \<le> length vs \<and> ns \<le> length vs"
    "h_vals h1 \<noteq> None \<longleftrightarrow> uhash_is_map h"
    "ns < h_size h \<longrightarrow> h_vals h1 = h_vals h"
    by blast
  note ini = rehash_inv_init[OF t ok h1(2,3,6,7,8,9,10)]
  have lenf: "length (h_flags h) = h_size h" using table_okD(1)[OF t] by (simp add: counts_ok_def)
  have ac1: "arrays_cover h1"
    using h1(8,10) lenf by (auto simp: arrays_cover_def h1(2,3) split: option.splits)
  have room: "card (slots h1 (flags_0xaa ns)) < ns" using ini(3) cns by simp
  from rehash_total[OF ok k(3) k(2) ini(1) _ _ _ room, of 0] szle
  obtain h2 nf where r0:
    "uhash_rehash hash_func (ns - 1) 0 h1 (flags_0xaa ns) = Some (h2, nf) \<and>
     rehash_inv hash_func equal_func ns h2 nf \<and>
     entry h2 ` slots h2 nf = entry h1 ` slots h1 (flags_0xaa ns) \<and>
     card (slots h2 nf) = card (slots h1 (flags_0xaa ns)) \<and>
     (\<forall>i. \<not> pending h2 i) \<and>
     h_size h2 = h_size h1 \<and> h_count h2 = h_count h1 \<and> h_occupied h2 = h_occupied h1 \<and>
     (h_vals h2 = None \<longleftrightarrow> h_vals h1 = None)"
    by (auto simp: h1(2))
  have r: "uhash_rehash hash_func (ns - 1) 0 h1 (flags_0xaa ns) = Some (h2, nf)"
    "rehash_inv hash_func equal_func ns h2 nf"
    "entry h2 ` slots h2 nf = entry h1 ` slots h1 (flags_0xaa ns)"
    "card (slots h2 nf) = card (slots h1 (flags_0xaa ns))"
    "\<forall>i. \<not> pending h2 i"
    "h_size h2 = h_size h1" "h_count h2 = h_count h1" "h_occupied h2 = h_occupied h1"
    "h_vals h2 = None \<longleftrightarrow> h_vals h1 = None"
    using r0 by blast+
  have "entry h2 ` slots h2 nf = entries h" using r(3) ini(4) by simp
  moreover have "card (slots h2 nf) = h_count h" using r(4) ini(3) by simp
  moreover have "h_vals h2 \<noteq> None \<longleftrightarrow> uhash_is_map h" using r(9) h1(11) by simp
  moreover have "ns < h_size h \<longrightarrow> (h_vals h2 = None \<longleftrightarrow> h_vals h = None)"
    using r(9) h1(12) by simp
  ultimately show ?thesis
    unfolding ns_def[symmetric]
    using h1(1) ac1 r(1,2,5) r(6)[unfolded h1(2)] r(7)[unfolded h1(4)]
    by (intro exI[of _ h1] exI[of _ h2] exI[of _ nf]) simp
qed

text \<open>A resize that is not refused rehashes every element into a well-formed table.\<close>

lemma uhash_resize_ok:
  fixes h :: "('k, 'v::zero) UHash"
  assumes t: "table_ok hash_func equal_func h" and ok: "hash_eq_ok hash_func equal_func"
    and al: "allocs_suffice al h (uhash_resize_size n)"
    and cnt: "h_count h < p_uhash_upper_bound (uhash_resize_size n)"
  shows "\<exists>h'. uhash_resize hash_func al h n = Some (UHASH_OK, h') \<and>
           table_ok hash_func equal_func h' \<and> entries h' = entries h \<and>
           h_size h' = uhash_resize_size n \<and> h_count h' = h_count h \<and>
           h_occupied h' = h_count h \<and> (h_vals h' \<noteq> None \<longleftrightarrow> uhash_is_map h)"
proof -
  define ns where "ns = uhash_resize_size n"
  obtain k where k: "2 \<le> k" "k \<le> 31" "ns = 2 ^ k"
    using resize_size_pow2[of n] by (auto simp: ns_def)
  have four: "4 \<le> ns" using power_increasing[of 2 k "2::nat"] k by simp
  have cns: "h_count h < ns" using cnt upper_bound_less[of ns] four by (simp add: ns_def)
  have al': "allocs_suffice al h ns" using al by (simp add: ns_def)
  have grow: "h_size h < uhash_resize_size n \<longrightarrow>
             realloc_keys al \<noteq> None \<and> (uhash_is_map h \<longrightarrow> realloc_vals al \<noteq> None)"
    using al by (simp add: allocs_suffice_def)
  from resize_rehash[OF t ok grow cnt] obtain h1 h2 nf where r0:
    "uhash_resize_expand al h ns = Inr h1 \<and> arrays_cover h1 \<and>
     uhash_rehash hash_func (ns - 1) 0 h1 (flags_0xaa ns) = Some (h2, nf) \<and>
     rehash_inv hash_func equal_func ns h2 nf \<and>
     entry h2 ` slots h2 nf = entries h \<and> card (slots h2 nf) = h_count h \<and>
     (\<forall>i. \<not> pending h2 i) \<and> h_size h2 = h_size h \<and> h_count h2 = h_count h \<and>
     (h_vals h2 \<noteq> None \<longleftrightarrow> uhash_is_map h) \<and>
     (ns < h_size h \<longrightarrow> (h_vals h2 = None \<longleftrightarrow> h_vals h = None))"
    unfolding ns_def[symmetric] by (elim exE) (rule that)
  have r: "uhash_resize_expand al h ns = Inr h1" "arrays_cover h1"
    "uhash_rehash hash_func (ns - 1) 0 h1 (flags_0xaa ns) = Some (h2, nf)"
    "rehash_inv hash_func equal_func ns h2 nf"
    "entry h2 ` slots h2 nf = entries h" "card (slots h2 nf) = h_count h"
    "\<forall>i. \<not> pending h2 i" "h_size h2 = h_size h" "h_count h2 = h_count h"
    "h_vals h2 \<noteq> None \<longleftrightarrow> uhash_is_map h"
    "ns < h_size h \<longrightarrow> (h_vals h2 = None \<longleftrightarrow> h_vals h = None)"
    using r0 by blast+
  note d = rehash_invD[OF r(4)]
  have len2: "ns \<le> length (h_keys h2)"
    "case h_vals h2 of None \<Rightarrow> True | Some vs \<Rightarrow> ns \<le> length vs"
    using d(5,6) by (auto split: option.splits)
  have al2: "ns < h_size h2 \<longrightarrow>
               realloc_keys al \<noteq> None \<and> (h_vals h2 \<noteq> None \<longrightarrow> realloc_vals al \<noteq> None)"
    using al' r(8,11) by (auto simp: allocs_suffice_def)
  note sh = shrink_ok[OF al2 len2]
  define h' where "h' = (uhash_resize_shrink al h2 ns)\<lparr>h_flags := nf, h_size := ns,
                     h_occupied := h_count (uhash_resize_shrink al h2 ns)\<rparr>"
  have f': "h_size h' = ns" "h_flags h' = nf" "h_count h' = h_count h2"
    "h_occupied h' = h_count h2" "h_keys h' = h_keys (uhash_resize_shrink al h2 ns)"
    "h_vals h' = h_vals (uhash_resize_shrink al h2 ns)"
    by (simp_all add: h'_def sh(2))
  have res: "uhash_resize hash_func al h n = Some (UHASH_OK, h')"
    using cnt al' r(1,2,3)
    by (simp add: uhash_resize_def Let_def allocs_suffice_def h'_def flip: ns_def)
  have en': "\<forall>i<ns. entry h' i = entry h2 i"
    using sh(5) by (simp add: entry_def f')
  have fin: "table_ok hash_func equal_func h'" "entries h' = entry h2 ` slots h2 nf"
    using rehash_inv_final[OF r(4) ok k(3,1,2) r(7), of h'] r(6) cns sh(3,4,6) en'
    by (simp_all add: f' r(9))
  have "entries h' = entries h" using fin(2) r(5) by simp
  moreover have "h_vals h' \<noteq> None \<longleftrightarrow> uhash_is_map h"
    using sh(7) r(10) by (simp add: f')
  ultimately show ?thesis
    using res fin(1) f' r(9) by (intro exI[of _ h']) (simp add: ns_def)
qed

subsection \<open>Failed allocations\<close>

text \<open>The lookup reads the flags and the keys of the first \<open>h_size\<close> buckets only.\<close>

lemma uhash_get_agree:
  assumes f: "h_size h1 = h_size h" "h_flags h1 = h_flags h"
    and k: "\<forall>i<h_size h. h_keys h1 ! i = h_keys h ! i"
    and p: "h_size h = 0 \<or> pow2_size h" and ac: "arrays_cover h" "arrays_cover h1"
  shows "uhash_get hash_func equal_func h1 key = uhash_get hash_func equal_func h key"
proof (cases "h_size h = 0")
  case True
  then show ?thesis using f by (simp add: uhash_get_def)
next
  case False
  then have p0: "pow2_size h" using p by simp
  then have p1: "pow2_size h1" using f by (simp add: pow2_size_def)
  have pc: "probe_cont equal_func (h_flags h1) (h_keys h1) key b =
            probe_cont equal_func (h_flags h) (h_keys h) key b" if "b < h_size h" for b
    using that k f by (simp add: probe_cont_def)
  have pr: "h_probe hash_func h1 key n = h_probe hash_func h key n" for n
    by (simp add: h_probe_def f)
  have pl: "probe (h_size h) s n < h_size h" for s n using False by (simp add: probe_less)
  have st: "h_stops hash_func equal_func h1 key n = h_stops hash_func equal_func h key n" for n
    by (simp add: h_stops_def stops_at_def f pc[unfolded f] pl)
  from h_stops_or_full[OF p0, of hash_func equal_func key] show ?thesis
  proof
    assume "\<exists>n. h_stops hash_func equal_func h key n"
    then obtain n where n: "h_stops hash_func equal_func h key n" by blast
    then have n1: "h_stops hash_func equal_func h1 key n" by (simp add: st)
    show ?thesis
      using uhash_get_stops[OF p0 ac(1) n] uhash_get_stops[OF p1 ac(2) n1] by (simp add: pr f)
  next
    assume full: "\<forall>b<h_size h. probe_cont equal_func (h_flags h) (h_keys h) key b"
    have "uhash_get hash_func equal_func h key = Some UHASH_INDEX_MISSING"
      using full by (intro uhash_get_full[OF p0 ac(1)]) simp
    moreover have "uhash_get hash_func equal_func h1 key = Some UHASH_INDEX_MISSING"
      using full pc f by (intro uhash_get_full[OF p1 ac(2)]) simp
    ultimately show ?thesis by simp
  qed
qed

lemma table_ok_agree:
  assumes t: "table_ok hash_func equal_func h"
    and f: "h_size h1 = h_size h" "h_flags h1 = h_flags h" "h_count h1 = h_count h"
      "h_occupied h1 = h_occupied h"
    and k: "\<forall>i<h_size h. h_keys h1 ! i = h_keys h ! i"
    and ac1: "arrays_cover h1"
  shows "table_ok hash_func equal_func h1"
proof -
  have c: "counts_ok h" and ac: "arrays_cover h" and p: "h_size h = 0 \<or> pow2_size h"
    using table_okD[OF t] by simp_all
  have ex: "uhash_exists h1 i = uhash_exists h i" for i by (simp add: uhash_exists_def f)
  have c1: "counts_ok h1"
    using c by (simp add: counts_ok_def f pow2_size_def live_buckets_def used_buckets_def ex[abs_def])
  have g: "uhash_get hash_func equal_func h1 key = uhash_get hash_func equal_func h key" for key
    by (rule uhash_get_agree[OF f(1,2) k p ac ac1])
  have "\<forall>i<h_size h1. uhash_exists h1 i \<longrightarrow>
          uhash_get hash_func equal_func h1 (h_keys h1 ! i) = Some i"
    using table_okD(5)[OF t] k by (simp add: f ex g)
  then show ?thesis using c1 ac1 table_okD(4)[OF t] by (simp add: table_ok_def f)
qed

lemma entries_agree:
  assumes f: "h_size h1 = h_size h" "h_flags h1 = h_flags h"
    and e: "\<forall>i<h_size h. entry h1 i = entry h i"
  shows "entries h1 = entries h"
proof -
  have ex: "uhash_exists h1 i = uhash_exists h i" for i by (simp add: uhash_exists_def f)
  have "entries h1 = entry h1 ` {i. i < h_size h \<and> uhash_exists h i}"
    by (auto simp: entries_def f ex)
  also have "\<dots> = entry h ` {i. i < h_size h \<and> uhash_exists h i}"
    using e by (intro image_cong) simp_all
  also have "\<dots> = entries h" by (auto simp: entries_def)
  finally show ?thesis .
qed

text \<open>
  A resize whose flag allocation or growing reallocation fails returns
  \<open>UHASH_ERR\<close>; the key array may already have been reallocated.
\<close>

lemma resize_fail:
  fixes h :: "('k, 'v::zero) UHash"
  assumes cnt: "h_count h < p_uhash_upper_bound (uhash_resize_size n)"
    and fail: "\<not> malloc_flags al \<or>
       (h_size h < uhash_resize_size n \<and>
        (realloc_keys al = None \<or> (uhash_is_map h \<and> realloc_vals al = None)))"
  shows "\<exists>h1. uhash_resize hash_func al h n = Some (UHASH_ERR, h1) \<and>
           (h1 = h \<or> (\<exists>fk. realloc_keys al = Some fk \<and> h_size h < uhash_resize_size n \<and>
               h1 = h\<lparr>h_keys := ulib_realloc (h_keys h) (uhash_resize_size n) fk\<rparr>))"
proof (cases "malloc_flags al")
  case False
  then show ?thesis using cnt by (simp add: uhash_resize_def Let_def)
next
  case True
  then have f: "h_size h < uhash_resize_size n"
    "realloc_keys al = None \<or> (uhash_is_map h \<and> realloc_vals al = None)" using fail by simp_all
  show ?thesis
  proof (cases "realloc_keys al")
    case None
    then show ?thesis using cnt True f(1)
      by (simp add: uhash_resize_def Let_def uhash_resize_expand_def)
  next
    case (Some fk)
    then have m: "uhash_is_map h" "realloc_vals al = None" using f(2) by simp_all
    have m1: "uhash_is_map (h\<lparr>h_keys := ulib_realloc (h_keys h) (uhash_resize_size n) fk\<rparr>)"
      using m(1) by (simp add: uhash_is_map_def)
    show ?thesis using cnt True f(1) Some m(2) m1
      by (simp add: uhash_resize_def Let_def uhash_resize_expand_def)
  qed
qed

lemma resize_fail_ok:
  assumes t: "table_ok hash_func equal_func h"
    and h1: "h1 = h \<or> (\<exists>fk. h_size h < ns \<and> h1 = h\<lparr>h_keys := ulib_realloc (h_keys h) ns fk\<rparr>)"
  shows "table_ok hash_func equal_func h1" and "entries h1 = entries h"
    and "h_size h1 = h_size h" and "h_count h1 = h_count h" and "h_occupied h1 = h_occupied h"
    and "h_flags h1 = h_flags h" and "h_vals h1 = h_vals h"
    and "\<forall>i<h_size h. h_keys h1 ! i = h_keys h ! i"
proof -
  have ac: "arrays_cover h" by (rule table_okD(2)[OF t])
  have lk: "h_size h \<le> length (h_keys h)" using ac by (simp add: arrays_cover_def)
  have f: "h_size h1 = h_size h" "h_count h1 = h_count h" "h_occupied h1 = h_occupied h"
    "h_flags h1 = h_flags h" "h_vals h1 = h_vals h"
    using h1 by auto
  have k: "\<forall>i<h_size h. h_keys h1 ! i = h_keys h ! i"
    using h1 lk by (auto simp: nth_ulib_realloc)
  have "h_size h \<le> length (h_keys h1)" using h1 lk by (auto simp: length_ulib_realloc)
  then have ac1: "arrays_cover h1"
    using ac by (auto simp: arrays_cover_def f split: option.splits)
  show "table_ok hash_func equal_func h1"
    by (rule table_ok_agree[OF t f(1,4,2,3) k ac1])
  have "\<forall>i<h_size h. entry h1 i = entry h i" using k by (simp add: entry_def f)
  then show "entries h1 = entries h" by (rule entries_agree[OF f(1,4)])
  show "h_size h1 = h_size h" "h_count h1 = h_count h" "h_occupied h1 = h_occupied h"
    "h_flags h1 = h_flags h" "h_vals h1 = h_vals h" by (rule f)+
  show "\<forall>i<h_size h. h_keys h1 ! i = h_keys h ! i" by (rule k)
qed

text \<open>
  When the capacity does not grow, the code, the counters and the flags that a resize
  leaves do not depend on the outcome of the reallocations.
\<close>

lemma resize_counters_indep:
  fixes h :: "('k, 'v::zero) UHash"
  assumes ns: "\<not> h_size h < uhash_resize_size n" and mf: "malloc_flags al' = malloc_flags al"
  shows "map_option (\<lambda>(r, h'). (r, h_size h', h_count h', h_occupied h', h_flags h'))
           (uhash_resize hash_func al' h n) =
         map_option (\<lambda>(r, h'). (r, h_size h', h_count h', h_occupied h', h_flags h'))
           (uhash_resize hash_func al h n)"
proof -
  have e: "uhash_resize_expand al' h (uhash_resize_size n) = Inr h"
    "uhash_resize_expand al h (uhash_resize_size n) = Inr h"
    using ns by (simp_all add: uhash_resize_expand_def)
  have s: "h_count (uhash_resize_shrink a h2 m) = h_count h2" for a :: "('k, 'v) allocs" and h2 m
    by (simp add: uhash_resize_shrink_def)
  show ?thesis
    by (simp add: uhash_resize_def Let_def e mf s split: option.splits)
qed

text \<open>
  The code, the counters and the flags of a resize that is not refused and whose
  growing allocations succeed; a failed reallocation of the shrink branch is not
  noticed.
\<close>

lemma resize_result:
  fixes h :: "('k, 'v::zero) UHash"
  assumes t: "table_ok hash_func equal_func h" and ok: "hash_eq_ok hash_func equal_func"
    and mf: "malloc_flags al"
    and al: "h_size h < uhash_resize_size n \<longrightarrow>
             realloc_keys al \<noteq> None \<and> (uhash_is_map h \<longrightarrow> realloc_vals al \<noteq> None)"
    and cnt: "h_count h < p_uhash_upper_bound (uhash_resize_size n)"
  shows "\<exists>h'. uhash_resize hash_func al h n = Some (UHASH_OK, h') \<and>
           h_size h' = uhash_resize_size n \<and> h_count h' = h_count h \<and>
           h_occupied h' = h_count h \<and> h_count h < uhash_resize_size n \<and>
           length (h_flags h') = uhash_resize_size n \<and>
           (\<forall>i<uhash_resize_size n. \<not> p_uhf_isdel (h_flags h') i) \<and>
           (uhash_resize_size n < h_size h \<and> realloc_keys al = None \<longrightarrow> h_keys h' = []) \<and>
           (uhash_resize_size n < h_size h \<and> realloc_vals al = None \<longrightarrow> h_vals h' = None)"
proof -
  define ns where "ns = uhash_resize_size n"
  obtain k where k: "2 \<le> k" "k \<le> 31" "ns = 2 ^ k"
    using resize_size_pow2[of n] by (auto simp: ns_def)
  have four: "4 \<le> ns" using power_increasing[of 2 k "2::nat"] k by simp
  have cns: "h_count h < ns" using cnt upper_bound_less[of ns] four by (simp add: ns_def)
  from resize_rehash[OF t ok al cnt] obtain h1 h2 nf where r0:
    "uhash_resize_expand al h ns = Inr h1 \<and> arrays_cover h1 \<and>
     uhash_rehash hash_func (ns - 1) 0 h1 (flags_0xaa ns) = Some (h2, nf) \<and>
     rehash_inv hash_func equal_func ns h2 nf \<and>
     entry h2 ` slots h2 nf = entries h \<and> card (slots h2 nf) = h_count h \<and>
     (\<forall>i. \<not> pending h2 i) \<and> h_size h2 = h_size h \<and> h_count h2 = h_count h \<and>
     (h_vals h2 \<noteq> None \<longleftrightarrow> uhash_is_map h) \<and>
     (ns < h_size h \<longrightarrow> (h_vals h2 = None \<longleftrightarrow> h_vals h = None))"
    unfolding ns_def[symmetric] by (elim exE) (rule that)
  have r: "uhash_resize_expand al h ns = Inr h1" "arrays_cover h1"
    "uhash_rehash hash_func (ns - 1) 0 h1 (flags_0xaa ns) = Some (h2, nf)"
    "rehash_inv hash_func equal_func ns h2 nf" "h_size h2 = h_size h" "h_count h2 = h_count h"
    using r0 by blast+
  note d = rehash_invD[OF r(4)]
  define h3 where "h3 = uhash_resize_shrink al h2 ns"
  define h' where "h' = h3\<lparr>h_flags := nf, h_size := ns, h_occupied := h_count h3\<rparr>"
  have c3: "h_count h3 = h_count h2" by (simp add: h3_def uhash_resize_shrink_def)
  have k3: "ns < h_size h \<and> realloc_keys al = None \<longrightarrow> h_keys h3 = []"
    by (simp add: h3_def uhash_resize_shrink_def r(5))
  have v3: "ns < h_size h \<and> realloc_vals al = None \<longrightarrow> h_vals h3 = None"
    by (simp add: h3_def uhash_resize_shrink_def r(5) split: option.splits)
  have f': "h_size h' = ns" "h_flags h' = nf" "h_count h' = h_count h"
    "h_occupied h' = h_count h" "h_keys h' = h_keys h3" "h_vals h' = h_vals h3"
    by (simp_all add: h'_def c3 r(6))
  have res: "uhash_resize hash_func al h n = Some (UHASH_OK, h')"
    using cnt mf r(1,2,3)
    by (simp add: uhash_resize_def Let_def h'_def h3_def flip: ns_def)
  show ?thesis
    unfolding ns_def[symmetric]
    using res cns d(1,2) k3 v3 by (intro exI[of _ h']) (simp add: f')
qed


section \<open>Insertion\<close>

lemma pow2_cmp:
  assumes "(2::nat) ^ a < 2 ^ b"
  shows "a < b"
  using assms by (simp add: power_strict_increasing_iff)

lemma resize_size_same:
  assumes p: "pow2_size h" and four: "4 \<le> h_size h"
  shows "uhash_resize_size (ulib_uint (h_size h + (2 ^ 32 - 1))) = h_size h"
proof -
  obtain k where k: "k \<le> 31" "h_size h = 2 ^ k" using p by (auto simp: pow2_size_def)
  have le: "h_size h \<le> 2 ^ 31" by (rule pow2_size_le[OF p])
  have n: "ulib_uint (h_size h + (2 ^ 32 - 1)) = h_size h - 1"
    using le four by (simp add: ulib_uint_def mod_if)
  have "h_size h - 1 \<le> 2 ^ 31" using le by simp
  from resize_size_least[OF this] obtain k' where k':
    "2 \<le> k'" "k' \<le> 31" "uhash_resize_size (h_size h - 1) = 2 ^ k'" "h_size h - 1 \<le> 2 ^ k'"
    "k' = 2 \<or> 2 ^ (k' - 1) < h_size h - 1" by blast
  have k2: "2 \<le> k"
  proof (rule ccontr)
    assume "\<not> 2 \<le> k"
    then have "k < 2" by simp
    then have "(2::nat) ^ k < 2 ^ 2" by (intro power_strict_increasing) simp_all
    then show False using four k(2) by simp
  qed
  have "k' \<le> k"
  proof (cases "k' = 2")
    case True
    then show ?thesis using k2 by simp
  next
    case False
    then have "(2::nat) ^ (k' - 1) < 2 ^ k" using k'(5) k(2) by linarith
    then have "k' - 1 < k" by (rule pow2_cmp)
    then show ?thesis by simp
  qed
  moreover have "k \<le> k'"
  proof (rule ccontr)
    assume "\<not> k \<le> k'"
    then have "Suc k' \<le> k" by simp
    then have "(2::nat) ^ Suc k' \<le> 2 ^ k" by (intro power_increasing) simp_all
    moreover have "(2::nat) ^ k' \<ge> 4" using power_increasing[of 2 k' "2::nat"] k'(1) by simp
    ultimately show False using k'(4) k(2) by simp
  qed
  ultimately show ?thesis using n k'(3) k(2) by simp
qed

lemma resize_size_double:
  assumes p: "pow2_size h" and four: "4 \<le> h_size h" and lt: "h_size h < 2 ^ 31"
  shows "uhash_resize_size (ulib_uint (h_size h + 1)) = 2 * h_size h"
proof -
  obtain k where k: "k \<le> 31" "h_size h = 2 ^ k" using p by (auto simp: pow2_size_def)
  have n: "ulib_uint (h_size h + 1) = h_size h + 1"
    using lt by (simp add: ulib_uint_id)
  have "h_size h + 1 \<le> 2 ^ 31" using lt by simp
  from resize_size_least[OF this] obtain k' where k':
    "2 \<le> k'" "k' \<le> 31" "uhash_resize_size (h_size h + 1) = 2 ^ k'" "h_size h + 1 \<le> 2 ^ k'"
    "k' = 2 \<or> 2 ^ (k' - 1) < h_size h + 1" by blast
  have "(2::nat) ^ k < 2 ^ k'" using k'(4) k(2) by linarith
  then have g: "k < k'" by (rule pow2_cmp)
  have "k' \<noteq> 2"
  proof
    assume "k' = 2"
    then have "k < 2" using g by simp
    then have "(2::nat) ^ k < 2 ^ 2" by (intro power_strict_increasing) simp_all
    then show False using four k(2) by simp
  qed
  moreover have "(0::nat) < 2 ^ k" by simp
  ultimately have "(2::nat) ^ (k' - 1) < 2 * 2 ^ k" using k'(5) k(2) by linarith
  then have "(2::nat) ^ (k' - 1) < 2 ^ Suc k" by simp
  then have "k' - 1 < Suc k" by (rule pow2_cmp)
  then have "k' = Suc k" using g by simp
  then show ?thesis using n k'(3) k(2) by simp
qed

lemma round_up_pow2_numeral:
  "round_up_pow2 (numeral k) p x =
     (if x \<le> p then p else round_up_pow2 (pred_numeral k) (2 * p) x)"
  by (simp add: numeral_eq_Suc)

lemma resize_size_first: "uhash_resize_size (ulib_uint (0 + 1)) = 4"
proof -
  have "ulib_uint (0 + 1) = 1" by (simp add: ulib_uint_def)
  moreover have "ulib_uint_next_power_2 1 = 1"
    by (simp add: ulib_uint_next_power_2_def round_up_pow2_numeral)
  ultimately show ?thesis by (simp add: uhash_resize_size_def)
qed

lemma table_ok_occupied:
  assumes t: "table_ok hash_func equal_func h"
  shows "p_uhash_occupied h = (if h_size h = 0 then 0 else h_occupied h)"
    and "h_count h \<le> p_uhash_occupied h"
proof -
  show o: "p_uhash_occupied h = (if h_size h = 0 then 0 else h_occupied h)"
    using table_okD(4)[OF t] by (auto simp: p_uhash_occupied_def)
  have c: "counts_ok h" by (rule table_okD(1)[OF t])
  show "h_count h \<le> p_uhash_occupied h"
  proof (cases "h_size h = 0")
    case True
    then show ?thesis using c by (simp add: counts_ok_def live_buckets_def)
  next
    case False
    then show ?thesis using c live_le_used[of h] by (simp add: o counts_ok_def)
  qed
qed

text \<open>At the upper bound \<open>uhash_put\<close> calls \<open>uhash_resize\<close>; the capacity it asks for.\<close>

lemma put_grow_resize:
  fixes h :: "('k, 'v::zero) UHash"
  assumes t: "table_ok hash_func equal_func h" and room: "has_room h"
    and nb: "\<not> p_uhash_occupied h < p_uhash_upper_bound (h_size h)"
  shows "\<exists>n. (\<forall>al. uhash_put_grow hash_func al h = uhash_resize hash_func al h n) \<and>
           uhash_resize_size n = put_size h \<and>
           h_count h < p_uhash_upper_bound (uhash_resize_size n) \<and>
           ulib_uint (h_count h * 2) = 2 * h_count h \<and>
           ((2 * h_count h < h_size h \<and> uhash_resize_size n = h_size h \<and> 4 \<le> h_size h) \<or>
            (h_size h \<le> 2 * h_count h \<and> h_size h < uhash_resize_size n \<and>
             Suc (h_count h) < uhash_resize_size n))"
proof -
  have c: "counts_ok h" by (rule table_okD(1)[OF t])
  have cle: "h_count h \<le> h_size h" "h_size h \<le> 2 ^ 31" using count_le_size[OF c] by simp_all
  have co: "h_count h \<le> p_uhash_occupied h" by (rule table_ok_occupied(2)[OF t])
  have c2: "ulib_uint (h_count h * 2) = 2 * h_count h"
  proof -
    have "h_count h < 2 ^ 31"
    proof (cases "h_size h = 0")
      case True
      then show ?thesis using cle by simp
    next
      case nz: False
      then have "h_occupied h < h_size h" using table_okD(4)[OF t] by simp
      then show ?thesis using co table_ok_occupied(1)[OF t] nz cle by simp
    qed
    then show ?thesis by (simp add: ulib_uint_id)
  qed
  have lt31: "h_size h < 2 ^ 31" using room nb by (simp add: has_room_def)
  define n where "n = (if 2 * h_count h < h_size h then ulib_uint (h_size h + (2 ^ 32 - 1))
                        else ulib_uint (h_size h + 1))"
  have grow: "\<forall>al. uhash_put_grow hash_func al h = uhash_resize hash_func al h n"
    using nb by (simp add: uhash_put_grow_def c2 n_def)
  have size_cases: "uhash_resize_size n = put_size h \<and>
       ((2 * h_count h < h_size h \<and> uhash_resize_size n = h_size h \<and> 4 \<le> h_size h) \<or>
        (h_size h \<le> 2 * h_count h \<and> h_size h < uhash_resize_size n \<and>
         h_count h < p_uhash_upper_bound (uhash_resize_size n) \<and>
         Suc (h_count h) < uhash_resize_size n))"
  proof (cases "2 * h_count h < h_size h")
    case True
    then have "0 < h_size h" by simp
    then have "pow2_size h" "4 \<le> h_size h" using c by (simp_all add: counts_ok_def)
    moreover have "put_size h = h_size h" using True by (simp add: put_size_def)
    ultimately show ?thesis using True resize_size_same[of h] by (simp add: n_def)
  next
    case nh: False
    show ?thesis
    proof (cases "h_size h = 0")
      case True
      then have "uhash_resize_size n = 4" using resize_size_first nh by (simp add: n_def)
      moreover have "put_size h = 4" using True nh nb by (simp add: put_size_def)
      ultimately show ?thesis using True nh cle by (simp add: p_uhash_upper_bound_def)
    next
      case nz: False
      then have p: "pow2_size h" "4 \<le> h_size h" using c by (simp_all add: counts_ok_def)
      have "uhash_resize_size n = 2 * h_size h"
        using nh resize_size_double[OF p lt31] by (simp add: n_def)
      moreover have "put_size h = 2 * h_size h"
        using nz nh nb by (simp add: put_size_def mult.commute)
      ultimately show ?thesis using nh cle p(2) upper_bound_double[of "h_size h"] by simp
    qed
  qed
  have cnt: "h_count h < p_uhash_upper_bound (uhash_resize_size n)"
    using size_cases upper_bound_half[of "h_count h" "h_size h"] by auto
  show ?thesis using grow size_cases cnt c2 by (intro exI[of _ n]) auto
qed

text \<open>The first half of \<open>uhash_put\<close> leaves a well-formed table with room for one more
  element.\<close>

lemma put_grow_ok:
  fixes h :: "('k, 'v::zero) UHash"
  assumes t: "table_ok hash_func equal_func h" and ok: "hash_eq_ok hash_func equal_func"
    and al: "put_allocs_ok al h" and room: "has_room h"
  shows "\<exists>h1. uhash_put_grow hash_func al h = Some (UHASH_OK, h1) \<and>
           table_ok hash_func equal_func h1 \<and> 0 < h_size h1 \<and>
           Suc (h_occupied h1) < h_size h1 \<and> entries h1 = entries h \<and>
           h_count h1 = h_count h \<and> (h_vals h1 \<noteq> None \<longleftrightarrow> uhash_is_map h) \<and>
           h_occupied h1 \<le> p_uhash_occupied h \<and>
           (p_uhash_occupied h < p_uhash_upper_bound (h_size h) \<longrightarrow> h1 = h) \<and>
           h_size h1 = put_size h \<and> h_occupied h1 < p_uhash_upper_bound (h_size h1)"
proof (cases "p_uhash_occupied h < p_uhash_upper_bound (h_size h)")
  case True
  then have pos: "0 < h_size h" by (cases "h_size h = 0") (simp_all add: p_uhash_upper_bound_def)
  then have four: "4 \<le> h_size h" using table_okD(1)[OF t] by (simp add: counts_ok_def)
  have o: "p_uhash_occupied h = h_occupied h" using table_ok_occupied(1)[OF t] pos by simp
  have "Suc (h_occupied h) < h_size h"
    using True upper_bound_less[of "h_size h"] four by (simp add: o)
  moreover have "uhash_put_grow hash_func al h = Some (UHASH_OK, h)"
    using True by (simp add: uhash_put_grow_def)
  moreover have "h_size h = put_size h" using True by (simp add: put_size_def)
  moreover have "h_occupied h < p_uhash_upper_bound (h_size h)" using True o by simp
  ultimately show ?thesis
    using t pos table_ok_map_vals[OF t pos] o True by (intro exI[of _ h]) simp
next
  case False
  have co: "h_count h \<le> p_uhash_occupied h" by (rule table_ok_occupied(2)[OF t])
  from put_grow_resize[OF t room False] obtain n where n:
    "\<forall>al. uhash_put_grow hash_func al h = uhash_resize hash_func al h n"
    "uhash_resize_size n = put_size h"
    "h_count h < p_uhash_upper_bound (uhash_resize_size n)"
    "ulib_uint (h_count h * 2) = 2 * h_count h"
    "(2 * h_count h < h_size h \<and> uhash_resize_size n = h_size h \<and> 4 \<le> h_size h) \<or>
     (h_size h \<le> 2 * h_count h \<and> h_size h < uhash_resize_size n \<and>
      Suc (h_count h) < uhash_resize_size n)" by blast
  have mf: "malloc_flags al"
    and ex: "h_size h \<le> 2 * h_count h \<Longrightarrow>
             realloc_keys al \<noteq> None \<and> (uhash_is_map h \<longrightarrow> realloc_vals al \<noteq> None)"
    using al False by (simp_all add: put_allocs_ok_def n(4))
  have suff: "allocs_suffice al h (uhash_resize_size n)"
    using n(5) mf ex by (auto simp: allocs_suffice_def)
  from uhash_resize_ok[OF t ok suff n(3)] obtain h1 where h1:
    "uhash_resize hash_func al h n = Some (UHASH_OK, h1)"
    "table_ok hash_func equal_func h1" "entries h1 = entries h"
    "h_size h1 = uhash_resize_size n" "h_count h1 = h_count h" "h_occupied h1 = h_count h"
    "h_vals h1 \<noteq> None \<longleftrightarrow> uhash_is_map h" by blast
  have "0 < h_size h1" "Suc (h_occupied h1) < h_size h1"
    using n(5) h1(4,6) by auto
  moreover have "h_size h1 = put_size h" using n(2) h1(4) by simp
  moreover have "h_occupied h1 < p_uhash_upper_bound (h_size h1)" using n(3) h1(4,6) by simp
  ultimately show ?thesis using h1 n(1) co False by (intro exI[of _ h1]) simp
qed

text \<open>A failed allocation of that resize makes \<open>uhash_put\<close> return \<open>UHASH_ERR\<close>.\<close>

lemma put_err:
  fixes h :: "('k, 'v::zero) UHash"
  assumes t: "table_ok hash_func equal_func h" and room: "has_room h"
    and nal: "\<not> put_allocs_ok al h"
  shows "\<exists>h1. uhash_put hash_func equal_func al h key =
                 Some (UHASH_ERR, UHASH_INDEX_MISSING, h1) \<and>
           (h1 = h \<or> (\<exists>fk. h_size h < put_size h \<and>
                             h1 = h\<lparr>h_keys := ulib_realloc (h_keys h) (put_size h) fk\<rparr>))"
proof -
  have nb: "\<not> p_uhash_occupied h < p_uhash_upper_bound (h_size h)"
    using nal by (auto simp: put_allocs_ok_def)
  from put_grow_resize[OF t room nb] obtain n where n:
    "\<forall>al. uhash_put_grow hash_func al h = uhash_resize hash_func al h n"
    "uhash_resize_size n = put_size h"
    "h_count h < p_uhash_upper_bound (uhash_resize_size n)"
    "ulib_uint (h_count h * 2) = 2 * h_count h"
    "(2 * h_count h < h_size h \<and> uhash_resize_size n = h_size h \<and> 4 \<le> h_size h) \<or>
     (h_size h \<le> 2 * h_count h \<and> h_size h < uhash_resize_size n \<and>
      Suc (h_count h) < uhash_resize_size n)" by blast
  have fail: "\<not> malloc_flags al \<or>
       (h_size h < uhash_resize_size n \<and>
        (realloc_keys al = None \<or> (uhash_is_map h \<and> realloc_vals al = None)))"
    using nal nb n(5) by (auto simp: put_allocs_ok_def n(4))
  from resize_fail[OF n(3) fail, of hash_func] obtain h1 where h1:
    "uhash_resize hash_func al h n = Some (UHASH_ERR, h1)"
    "h1 = h \<or> (\<exists>fk. realloc_keys al = Some fk \<and> h_size h < uhash_resize_size n \<and>
               h1 = h\<lparr>h_keys := ulib_realloc (h_keys h) (uhash_resize_size n) fk\<rparr>)"
    by blast
  have "uhash_put hash_func equal_func al h key = Some (UHASH_ERR, UHASH_INDEX_MISSING, h1)"
    using n(1) h1(1) by (simp add: uhash_put_def UHASH_ERR_def)
  then show ?thesis using h1(2) n(2) by (intro exI[of _ h1]) auto
qed

lemma entries_iff:
  "e \<in> entries h \<longleftrightarrow> (\<exists>i. i < h_size h \<and> uhash_exists h i \<and> e = entry h i)"
  by (auto simp: entries_def)

lemma entry_key: "fst (entry h i) = h_keys h ! i"
  by (simp add: entry_def)

lemma get_miss_entries:
  assumes t: "table_ok hash_func equal_func h" and ok: "hash_eq_ok hash_func equal_func"
  shows "uhash_get hash_func equal_func h key = Some UHASH_INDEX_MISSING \<longleftrightarrow>
         (\<forall>e\<in>entries h. \<not> equal_func (fst e) key)"
proof
  assume m: "uhash_get hash_func equal_func h key = Some UHASH_INDEX_MISSING"
  show "\<forall>e\<in>entries h. \<not> equal_func (fst e) key"
  proof
    fix e assume "e \<in> entries h"
    then obtain i where i: "i < h_size h" "uhash_exists h i" "e = entry h i"
      by (auto simp: entries_iff)
    show "\<not> equal_func (fst e) key"
    proof
      assume "equal_func (fst e) key"
      then have "uhash_get hash_func equal_func h key = Some i"
        using get_hit[OF t ok i(1,2)] i(3) by (simp add: entry_key)
      then show False using m index_not_missing[OF table_okD(3)[OF t] i(1)] by simp
    qed
  qed
next
  assume a: "\<forall>e\<in>entries h. \<not> equal_func (fst e) key"
  show "uhash_get hash_func equal_func h key = Some UHASH_INDEX_MISSING"
  proof (rule get_miss[OF t])
    fix i assume "i < h_size h" "uhash_exists h i"
    then have "entry h i \<in> entries h" by (auto simp: entries_iff)
    then show "\<not> equal_func (h_keys h ! i) key" using a by (auto simp: entry_key)
  qed
qed

text \<open>\<open>uhash_put\<close> in a well-formed table: the key ends in a live bucket \<open>x\<close>, the other
  elements are those of the table before.\<close>

lemma put_ok:
  fixes h :: "('k, 'v::zero) UHash"
  assumes t: "table_ok hash_func equal_func h" and ok: "hash_eq_ok hash_func equal_func"
    and al: "put_allocs_ok al h" and room: "has_room h"
  shows "\<exists>ret x h'. uhash_put hash_func equal_func al h key = Some (ret, x, h') \<and>
           table_ok hash_func equal_func h' \<and> x < h_size h' \<and> uhash_exists h' x \<and>
           equal_func (h_keys h' ! x) key \<and>
           (h_vals h' \<noteq> None \<longleftrightarrow> uhash_is_map h) \<and>
           h_occupied h' \<le> p_uhash_occupied h + 1 \<and>
           h_size h' = put_size h \<and> h_occupied h' \<le> p_uhash_upper_bound (h_size h') \<and>
           entry h' ` ({i. i < h_size h' \<and> uhash_exists h' i} - {x}) =
             {e \<in> entries h. \<not> equal_func (fst e) key} \<and>
           (if uhash_get hash_func equal_func h key = Some UHASH_INDEX_MISSING
            then ret = UHASH_INSERTED \<and> h_count h' = h_count h + 1 \<and> h_keys h' ! x = key
            else ret = UHASH_PRESENT \<and> h_count h' = h_count h \<and> entry h' x \<in> entries h \<and>
                 entries h' = entries h \<and> h_occupied h' \<le> p_uhash_occupied h \<and>
                 (p_uhash_occupied h < p_uhash_upper_bound (h_size h) \<longrightarrow> h' = h))"
proof -
  from put_grow_ok[OF t ok al room] obtain h1 where h1:
    "uhash_put_grow hash_func al h = Some (UHASH_OK, h1)"
    "table_ok hash_func equal_func h1" "0 < h_size h1"
    "Suc (h_occupied h1) < h_size h1" "entries h1 = entries h"
    "h_count h1 = h_count h" "h_vals h1 \<noteq> None \<longleftrightarrow> uhash_is_map h"
    "h_occupied h1 \<le> p_uhash_occupied h"
    "p_uhash_occupied h < p_uhash_upper_bound (h_size h) \<longrightarrow> h1 = h"
    "h_size h1 = put_size h" "h_occupied h1 < p_uhash_upper_bound (h_size h1)" by blast
  note t1 = h1(2)
  have p1: "pow2_size h1" using table_okD(3)[OF t1] h1(3) by simp
  have ac1: "arrays_cover h1" by (rule table_okD(2)[OF t1])
  have put: "uhash_put hash_func equal_func al h key = uhash_put_insert hash_func equal_func h1 key"
    using h1(1) by (simp add: uhash_put_def UHASH_OK_def)
  have miss_eq: "uhash_get hash_func equal_func h key = Some UHASH_INDEX_MISSING \<longleftrightarrow>
                 uhash_get hash_func equal_func h1 key = Some UHASH_INDEX_MISSING"
    using get_miss_entries[OF t ok] get_miss_entries[OF t1 ok] h1(5) by simp
  have sym: "equal_func a b \<Longrightarrow> equal_func b a" for a b by (rule hash_eq_okD(2)[OF ok])
  have trans: "equal_func a b \<Longrightarrow> equal_func b c \<Longrightarrow> equal_func a c" for a b c
    by (rule hash_eq_okD(3)[OF ok])
  show ?thesis
  proof (cases "uhash_get hash_func equal_func h1 key = Some UHASH_INDEX_MISSING")
    case True
    from put_insert_absent[OF t1 ok h1(3,4) True] obtain x where x:
      "x < h_size h1" "\<not> uhash_exists h1 x"
      "uhash_put_insert hash_func equal_func h1 key =
             Some (UHASH_INSERTED, x,
                   h1\<lparr>h_keys := (h_keys h1)[x := key],
                       h_flags := (h_flags h1)[x := (False, False)],
                       h_count := h_count h1 + 1,
                       h_occupied := (if p_uhf_isempty (h_flags h1) x then h_occupied h1 + 1
                                      else h_occupied h1)\<rparr>)"
      "table_ok hash_func equal_func
                   (h1\<lparr>h_keys := (h_keys h1)[x := key],
                       h_flags := (h_flags h1)[x := (False, False)],
                       h_count := h_count h1 + 1,
                       h_occupied := (if p_uhf_isempty (h_flags h1) x then h_occupied h1 + 1
                                      else h_occupied h1)\<rparr>)"
      by blast
    define h' where "h' = h1\<lparr>h_keys := (h_keys h1)[x := key],
                       h_flags := (h_flags h1)[x := (False, False)],
                       h_count := h_count h1 + 1,
                       h_occupied := (if p_uhf_isempty (h_flags h1) x then h_occupied h1 + 1
                                      else h_occupied h1)\<rparr>"
    have f': "h_size h' = h_size h1" "h_flags h' = (h_flags h1)[x := (False, False)]"
      "h_keys h' = (h_keys h1)[x := key]" "h_vals h' = h_vals h1" "h_count h' = h_count h1 + 1"
      "h_occupied h' \<le> h_occupied h1 + 1"
      by (simp_all add: h'_def)
    have lenf: "length (h_flags h1) = h_size h1"
      using table_okD(1)[OF t1] by (simp add: counts_ok_def)
    have lenk: "h_size h1 \<le> length (h_keys h1)" using ac1 by (simp add: arrays_cover_def)
    have ex': "uhash_exists h' i \<longleftrightarrow> i = x \<or> uhash_exists h1 i" for i
      using x(1) lenf by (auto simp: uhash_exists_def f' flag_defs nth_list_update)
    have kx: "h_keys h' ! x = key" using x(1) lenk by (simp add: f')
    have en: "entry h' i = entry h1 i" if "i \<noteq> x" for i
      using that by (simp add: entry_def f')
    have "{i. i < h_size h' \<and> uhash_exists h' i} - {x} = {i. i < h_size h1 \<and> uhash_exists h1 i}"
      using x(2) by (auto simp: f' ex')
    then have "entry h' ` ({i. i < h_size h' \<and> uhash_exists h' i} - {x}) =
               entry h' ` {i. i < h_size h1 \<and> uhash_exists h1 i}" by simp
    also have "\<dots> = entry h1 ` {i. i < h_size h1 \<and> uhash_exists h1 i}"
    proof (rule image_cong[OF refl])
      fix i assume "i \<in> {i. i < h_size h1 \<and> uhash_exists h1 i}"
      then have "i \<noteq> x" using x(2) by auto
      then show "entry h' i = entry h1 i" by (rule en)
    qed
    also have "\<dots> = entries h" using h1(5) by (auto simp: entries_def)
    also have "\<dots> = {e \<in> entries h. \<not> equal_func (fst e) key}"
      using get_miss_entries[OF t ok, of key] miss_eq True by auto
    finally have U: "entry h' ` ({i. i < h_size h' \<and> uhash_exists h' i} - {x}) =
             {e \<in> entries h. \<not> equal_func (fst e) key}" .
    have "uhash_put hash_func equal_func al h key = Some (UHASH_INSERTED, x, h')"
      using put x(3) by (simp add: h'_def)
    moreover have "table_ok hash_func equal_func h'" using x(4) by (simp add: h'_def)
    moreover have "equal_func (h_keys h' ! x) key" using kx hash_eq_okD(1)[OF ok] by simp
    moreover have "h_occupied h' \<le> p_uhash_occupied h + 1" using f'(6) h1(8) by simp
    moreover have "h_occupied h' \<le> p_uhash_upper_bound (h_size h')"
      using f'(1,6) h1(11) by simp
    ultimately show ?thesis
      using x(1) ex'[of x] U miss_eq True kx h1(6,7,10) f'(1,4,5)
      by (intro exI[of _ UHASH_INSERTED] exI[of _ x] exI[of _ h']) simp
  next
    case False
    from get_some[OF t1, of key] False obtain r where r:
      "uhash_get hash_func equal_func h1 key = Some r" "r \<noteq> UHASH_INDEX_MISSING"
      "r < h_size h1" "uhash_exists h1 r" "equal_func (h_keys h1 ! r) key" by auto
    have ins: "uhash_put_insert hash_func equal_func h1 key = Some (UHASH_PRESENT, r, h1)"
      by (rule put_insert_present[OF p1 ac1 r(1,2)])
    have U: "entry h1 ` ({i. i < h_size h1 \<and> uhash_exists h1 i} - {r}) =
             {e \<in> entries h. \<not> equal_func (fst e) key}"
    proof (rule set_eqI)
      fix e
      show "e \<in> entry h1 ` ({i. i < h_size h1 \<and> uhash_exists h1 i} - {r}) \<longleftrightarrow>
            e \<in> {e \<in> entries h. \<not> equal_func (fst e) key}"
      proof
        assume "e \<in> entry h1 ` ({i. i < h_size h1 \<and> uhash_exists h1 i} - {r})"
        then obtain i where i: "i < h_size h1" "uhash_exists h1 i" "i \<noteq> r" "e = entry h1 i"
          by auto
        have "\<not> equal_func (h_keys h1 ! i) key"
        proof
          assume "equal_func (h_keys h1 ! i) key"
          then have "equal_func (h_keys h1 ! i) (h_keys h1 ! r)" using trans sym r(5) by blast
          then show False using live_keys_distinct[OF t1 ok i(1,2) r(3,4)] i(3) by simp
        qed
        moreover have "e \<in> entries h1" using i by (auto simp: entries_iff)
        ultimately show "e \<in> {e \<in> entries h. \<not> equal_func (fst e) key}"
          using h1(5) i(4) by (simp add: entry_key)
      next
        assume "e \<in> {e \<in> entries h. \<not> equal_func (fst e) key}"
        then have e: "e \<in> entries h1" "\<not> equal_func (fst e) key" using h1(5) by simp_all
        then obtain i where i: "i < h_size h1" "uhash_exists h1 i" "e = entry h1 i"
          by (auto simp: entries_iff)
        have "i \<noteq> r" using e(2) i(3) r(5) by (auto simp: entry_key)
        then show "e \<in> entry h1 ` ({i. i < h_size h1 \<and> uhash_exists h1 i} - {r})"
          using i by auto
      qed
    qed
    have "entry h1 r \<in> entries h1" using r(3,4) by (auto simp: entries_iff)
    then have "entry h1 r \<in> entries h" using h1(5) by simp
    moreover have "h_occupied h1 \<le> p_uhash_occupied h + 1" using h1(8) by simp
    moreover have "h_occupied h1 \<le> p_uhash_upper_bound (h_size h1)" using h1(11) by simp
    ultimately show ?thesis
      using put ins t1 r(3,4,5) U miss_eq False h1(5,6,7,8,9,10)
      by (intro exI[of _ UHASH_PRESENT] exI[of _ r] exI[of _ h1]) simp
  qed
qed

text \<open>After \<open>uhash_put\<close> of \<open>key\<close> the keys that are missing are those that were missing and
  are not equal to \<open>key\<close>.\<close>

lemma put_miss_iff:
  fixes h :: "('k, 'v::zero) UHash"
  assumes t: "table_ok hash_func equal_func h" and ok: "hash_eq_ok hash_func equal_func"
    and al: "put_allocs_ok al h" and room: "has_room h"
    and r: "uhash_put hash_func equal_func al h key = Some (ret, x, h')"
  shows "uhash_get hash_func equal_func h' k = Some UHASH_INDEX_MISSING \<longleftrightarrow>
         \<not> equal_func k key \<and> uhash_get hash_func equal_func h k = Some UHASH_INDEX_MISSING"
proof -
  from put_ok[OF t ok al room, of key] r
  have p: "table_ok hash_func equal_func h'" "x < h_size h'" "uhash_exists h' x"
    "equal_func (h_keys h' ! x) key"
    "entry h' ` ({i. i < h_size h' \<and> uhash_exists h' i} - {x}) =
       {e \<in> entries h. \<not> equal_func (fst e) key}"
    by auto
  have sym: "equal_func a b \<Longrightarrow> equal_func b a" for a b by (rule hash_eq_okD(2)[OF ok])
  have trans: "equal_func a b \<Longrightarrow> equal_func b c \<Longrightarrow> equal_func a c" for a b c
    by (rule hash_eq_okD(3)[OF ok])
  have ex: "entry h' x \<in> entries h'" using p(2,3) by (auto simp: entries_iff)
  show ?thesis
  proof
    assume "uhash_get hash_func equal_func h' k = Some UHASH_INDEX_MISSING"
    then have m: "\<forall>e\<in>entries h'. \<not> equal_func (fst e) k"
      by (simp add: get_miss_entries[OF p(1) ok])
    have nk: "\<not> equal_func k key"
    proof
      assume "equal_func k key"
      then have "equal_func (h_keys h' ! x) k" using p(4) sym trans by blast
      then show False using m ex by (auto simp: entry_key)
    qed
    have "\<forall>e\<in>entries h. \<not> equal_func (fst e) k"
    proof
      fix e assume e: "e \<in> entries h"
      show "\<not> equal_func (fst e) k"
      proof (cases "equal_func (fst e) key")
        case True
        show ?thesis
        proof
          assume "equal_func (fst e) k"
          then have "equal_func k key" using True sym trans by blast
          then show False using nk by simp
        qed
      next
        case False
        then have "e \<in> {e \<in> entries h. \<not> equal_func (fst e) key}" using e by simp
        then have "e \<in> entry h' ` ({i. i < h_size h' \<and> uhash_exists h' i} - {x})"
          using p(5) by simp
        then have "e \<in> entries h'" by (auto simp: entries_iff)
        then show ?thesis using m by simp
      qed
    qed
    then show "\<not> equal_func k key \<and>
               uhash_get hash_func equal_func h k = Some UHASH_INDEX_MISSING"
      using nk by (simp add: get_miss_entries[OF t ok])
  next
    assume a: "\<not> equal_func k key \<and>
               uhash_get hash_func equal_func h k = Some UHASH_INDEX_MISSING"
    then have m: "\<forall>e\<in>entries h. \<not> equal_func (fst e) k"
      by (simp add: get_miss_entries[OF t ok])
    have "\<forall>e\<in>entries h'. \<not> equal_func (fst e) k"
    proof
      fix e assume "e \<in> entries h'"
      then obtain j where j: "j < h_size h'" "uhash_exists h' j" "e = entry h' j"
        by (auto simp: entries_iff)
      show "\<not> equal_func (fst e) k"
      proof (cases "j = x")
        case True
        show ?thesis
        proof
          assume "equal_func (fst e) k"
          then have "equal_func (h_keys h' ! x) k" using j(3) True by (simp add: entry_key)
          then have "equal_func k key" using p(4) sym trans by blast
          then show False using a by simp
        qed
      next
        case False
        then have "e \<in> entry h' ` ({i. i < h_size h' \<and> uhash_exists h' i} - {x})"
          using j by auto
        then have "e \<in> entries h" using p(5) by simp
        then show ?thesis using m by simp
      qed
    qed
    then show "uhash_get hash_func equal_func h' k = Some UHASH_INDEX_MISSING"
      by (simp add: get_miss_entries[OF p(1) ok])
  qed
qed


section \<open>Clearing and the map wrappers\<close>

lemma put_success_allocs:
  fixes h :: "('k, 'v::zero) UHash"
  assumes t: "table_ok hash_func equal_func h" and room: "has_room h"
    and r: "uhash_put hash_func equal_func al h key = Some (ret, x, h')" "ret \<noteq> UHASH_ERR"
  shows "put_allocs_ok al h"
proof (rule ccontr)
  assume "\<not> put_allocs_ok al h"
  from put_err[OF t room this, of key] r show False by auto
qed

lemma clear_ok:
  assumes t: "table_ok hash_func equal_func h"
  shows "table_ok hash_func equal_func (uhash_clear h)" and "h_size (uhash_clear h) = h_size h"
    and "p_uhash_occupied (uhash_clear h) = 0" and "h_count (uhash_clear h) = 0"
proof -
  have c: "counts_ok h" and ac: "arrays_cover h" using table_okD[OF t] by simp_all
  have cz: "p_uhash_occupied h = 0 \<Longrightarrow> h_count h = 0"
    using table_ok_occupied(2)[OF t] by simp
  show "h_size (uhash_clear h) = h_size h" by (simp add: uhash_clear_def)
  show "p_uhash_occupied (uhash_clear h) = 0"
    by (simp add: uhash_clear_def p_uhash_occupied_def)
  show "h_count (uhash_clear h) = 0" using cz by (simp add: uhash_clear_def)
  show "table_ok hash_func equal_func (uhash_clear h)"
  proof (cases "p_uhash_occupied h = 0")
    case True
    then show ?thesis using t by (simp add: uhash_clear_def)
  next
    case False
    define h' where "h' = h\<lparr>h_flags := flags_0xaa (length (h_flags h)), h_count := 0,
                           h_occupied := 0\<rparr>"
    have lenf: "length (h_flags h) = h_size h" using c by (simp add: counts_ok_def)
    have f': "h_size h' = h_size h" "h_flags h' = replicate (h_size h) (True, False)"
      "h_count h' = 0" "h_occupied h' = 0" "h_keys h' = h_keys h" "h_vals h' = h_vals h"
      by (simp_all add: h'_def flags_0xaa_def lenf)
    have ne: "\<not> uhash_exists h' i" if "i < h_size h" for i
      using that by (simp add: uhash_exists_def f' flag_defs)
    have em: "p_uhf_isempty (h_flags h') i" if "i < h_size h" for i
      using that by (simp add: f' flag_defs)
    have "live_buckets h' = []" using ne by (auto simp: live_buckets_def f' filter_empty_conv)
    moreover have "used_buckets h' = []"
      using em by (auto simp: used_buckets_def f'(1) filter_empty_conv)
    ultimately have c': "counts_ok h'"
      using c by (simp add: counts_ok_def f' pow2_size_def)
    have ac': "arrays_cover h'"
      using ac by (auto simp: arrays_cover_def f' split: option.splits)
    have "h_size h = 0 \<or> 0 < h_size h" by auto
    then have "table_ok hash_func equal_func h'"
      using c' ac' ne by (auto simp: table_ok_def f'(1,4))
    then show ?thesis using False by (simp add: uhash_clear_def h'_def)
  qed
qed

text \<open>\<open>uhmap_get\<close> in a well-formed map.\<close>

lemma uhmap_get_hit:
  assumes t: "table_ok hash_func equal_func h" and ok: "hash_eq_ok hash_func equal_func"
    and i: "i < h_size h" "uhash_exists h i" "equal_func (h_keys h ! i) key"
    and v: "h_vals h = Some vs"
  shows "uhmap_get hash_func equal_func h key d = Some (vs ! i)"
proof -
  have "i < length vs" using table_okD(2)[OF t] i(1) v by (simp add: arrays_cover_def)
  then show ?thesis
    using get_hit[OF t ok i] index_not_missing[OF table_okD(3)[OF t] i(1)] v
    by (simp add: uhmap_get_def)
qed

lemma uhmap_get_miss:
  assumes "uhash_get hash_func equal_func h key = Some UHASH_INDEX_MISSING"
  shows "uhmap_get hash_func equal_func h key d = Some d"
  using assms by (simp add: uhmap_get_def)

lemma vals_update_ok:
  assumes t: "table_ok hash_func equal_func h" and v: "h_vals h = Some vs"
  shows "table_ok hash_func equal_func (h\<lparr>h_vals := Some (vs[x := value])\<rparr>)"
proof -
  have ac: "arrays_cover h" by (rule table_okD(2)[OF t])
  have "arrays_cover (h\<lparr>h_vals := Some (vs[x := value])\<rparr>)"
    using ac v by (simp add: arrays_cover_def)
  then show ?thesis by (intro table_ok_agree[OF t]) simp_all
qed

text \<open>
  \<open>uhmap_set\<close> in a well-formed map: afterwards the keys equal to \<open>key\<close> have the new value
  and the other keys are looked up as before.
\<close>

lemma uhmap_set_ok:
  fixes h :: "('k, 'v::zero) UHash"
  assumes t: "table_ok hash_func equal_func h" and ok: "hash_eq_ok hash_func equal_func"
    and al: "put_allocs_ok al h" and room: "has_room h" and m: "uhash_is_map h"
  shows "\<exists>ret ex h'. uhmap_set hash_func equal_func al h key value = Some (ret, ex, h') \<and>
           table_ok hash_func equal_func h' \<and> uhash_is_map h' \<and> 0 < h_size h' \<and>
           h_occupied h' \<le> p_uhash_occupied h + 1 \<and>
           h_size h' = put_size h \<and> h_occupied h' \<le> p_uhash_upper_bound (h_size h') \<and>
           (\<forall>k d. uhmap_get hash_func equal_func h' k d =
                    (if equal_func k key then Some value
                     else uhmap_get hash_func equal_func h k d)) \<and>
           (\<forall>k. uhash_get hash_func equal_func h' k = Some UHASH_INDEX_MISSING \<longleftrightarrow>
                \<not> equal_func k key \<and>
                uhash_get hash_func equal_func h k = Some UHASH_INDEX_MISSING) \<and>
           (if uhash_get hash_func equal_func h key = Some UHASH_INDEX_MISSING
            then ret = UHASH_INSERTED \<and> ex = None \<and> h_count h' = h_count h + 1
            else ret = UHASH_PRESENT \<and> h_count h' = h_count h \<and>
                 (\<forall>d. uhmap_get hash_func equal_func h key d = ex))"
proof -
  from put_ok[OF t ok al room, of key] obtain ret x h1 where p0:
    "uhash_put hash_func equal_func al h key = Some (ret, x, h1) \<and>
     table_ok hash_func equal_func h1 \<and> x < h_size h1 \<and> uhash_exists h1 x \<and>
     equal_func (h_keys h1 ! x) key \<and>
     (h_vals h1 \<noteq> None \<longleftrightarrow> uhash_is_map h) \<and>
     h_occupied h1 \<le> p_uhash_occupied h + 1 \<and>
     h_size h1 = put_size h \<and> h_occupied h1 \<le> p_uhash_upper_bound (h_size h1) \<and>
     entry h1 ` ({i. i < h_size h1 \<and> uhash_exists h1 i} - {x}) =
       {e \<in> entries h. \<not> equal_func (fst e) key} \<and>
     (if uhash_get hash_func equal_func h key = Some UHASH_INDEX_MISSING
      then ret = UHASH_INSERTED \<and> h_count h1 = h_count h + 1 \<and> h_keys h1 ! x = key
      else ret = UHASH_PRESENT \<and> h_count h1 = h_count h \<and> entry h1 x \<in> entries h \<and>
           entries h1 = entries h \<and> h_occupied h1 \<le> p_uhash_occupied h \<and>
           (p_uhash_occupied h < p_uhash_upper_bound (h_size h) \<longrightarrow> h1 = h))"
    by (elim exE) (rule that)
  have p: "uhash_put hash_func equal_func al h key = Some (ret, x, h1)"
    "table_ok hash_func equal_func h1" "x < h_size h1" "uhash_exists h1 x"
    "equal_func (h_keys h1 ! x) key" "h_vals h1 \<noteq> None \<longleftrightarrow> uhash_is_map h"
    "h_occupied h1 \<le> p_uhash_occupied h + 1"
    "h_size h1 = put_size h" "h_occupied h1 \<le> p_uhash_upper_bound (h_size h1)"
    "entry h1 ` ({i. i < h_size h1 \<and> uhash_exists h1 i} - {x}) =
       {e \<in> entries h. \<not> equal_func (fst e) key}"
    using p0 by blast+
  have pm: "uhash_get hash_func equal_func h key = Some UHASH_INDEX_MISSING \<Longrightarrow>
            ret = UHASH_INSERTED \<and> h_count h1 = h_count h + 1"
    and pp: "uhash_get hash_func equal_func h key \<noteq> Some UHASH_INDEX_MISSING \<Longrightarrow>
            ret = UHASH_PRESENT \<and> h_count h1 = h_count h \<and> entry h1 x \<in> entries h"
    using p0 by (auto split: if_splits)
  have sym: "equal_func a b \<Longrightarrow> equal_func b a" for a b by (rule hash_eq_okD(2)[OF ok])
  have trans: "equal_func a b \<Longrightarrow> equal_func b c \<Longrightarrow> equal_func a c" for a b c
    by (rule hash_eq_okD(3)[OF ok])
  obtain vs where vs: "h_vals h1 = Some vs" using p(6) m by auto
  have xl: "x < length vs" using table_okD(2)[OF p(2)] p(3) vs by (simp add: arrays_cover_def)
  define h' where "h' = h1\<lparr>h_vals := Some (vs[x := value])\<rparr>"
  have t': "table_ok hash_func equal_func h'"
    unfolding h'_def by (rule vals_update_ok[OF p(2) vs])
  have f': "h_size h' = h_size h1" "h_flags h' = h_flags h1" "h_keys h' = h_keys h1"
    "h_vals h' = Some (vs[x := value])" "h_count h' = h_count h1"
    "h_occupied h' = h_occupied h1" by (simp_all add: h'_def)
  have ex': "uhash_exists h' i = uhash_exists h1 i" for i by (simp add: uhash_exists_def f')
  have rne: "ret \<noteq> UHASH_ERR"
    using pm pp by (cases "uhash_get hash_func equal_func h key = Some UHASH_INDEX_MISSING")
      (simp_all add: UHASH_ERR_def UHASH_INSERTED_def UHASH_PRESENT_def)
  have set: "uhmap_set hash_func equal_func al h key value =
             Some (ret, (if ret = UHASH_PRESENT then Some (vs ! x) else None), h')"
    using p(1) rne vs xl by (simp add: uhmap_set_def h'_def)
  have look: "uhmap_get hash_func equal_func h' k d =
              (if equal_func k key then Some value else uhmap_get hash_func equal_func h k d)"
    for k d
  proof (cases "equal_func k key")
    case True
    then have "equal_func (h_keys h1 ! x) k" using p(5) sym trans by blast
    then have "equal_func (h_keys h' ! x) k" by (simp add: f')
    from uhmap_get_hit[OF t' ok _ _ this f'(4), of d] p(3,4) xl True
    show ?thesis by (simp add: f' ex')
  next
    case False
    from get_some[OF p(2), of k] obtain r where r:
      "uhash_get hash_func equal_func h1 k = Some r"
      "r = UHASH_INDEX_MISSING \<or> (r < h_size h1 \<and> uhash_exists h1 r \<and> equal_func (h_keys h1 ! r) k)"
      by blast
    show ?thesis
    proof (cases "r = UHASH_INDEX_MISSING")
      case True
      have g1: "uhash_get hash_func equal_func h' k = Some UHASH_INDEX_MISSING"
      proof (rule get_miss[OF t'])
        fix i assume i: "i < h_size h'" "uhash_exists h' i"
        show "\<not> equal_func (h_keys h' ! i) k"
        proof
          assume "equal_func (h_keys h' ! i) k"
          then have "uhash_get hash_func equal_func h1 k = Some i"
            using get_hit[OF p(2) ok, of i k] i by (simp add: f' ex')
          then show False
            using r(1) True index_not_missing[OF table_okD(3)[OF p(2)], of i] i(1)
            by (simp add: f')
        qed
      qed
      have g0: "uhash_get hash_func equal_func h k = Some UHASH_INDEX_MISSING"
      proof (rule get_miss[OF t])
        fix i assume i: "i < h_size h" "uhash_exists h i"
        show "\<not> equal_func (h_keys h ! i) k"
        proof
          assume e: "equal_func (h_keys h ! i) k"
          have "\<not> equal_func (h_keys h ! i) key"
          proof
            assume "equal_func (h_keys h ! i) key"
            then have "equal_func k key" using e sym trans by blast
            then show False using False by simp
          qed
          moreover have "entry h i \<in> entries h" using i by (auto simp: entries_iff)
          ultimately have "entry h i \<in> {e \<in> entries h. \<not> equal_func (fst e) key}"
            by (simp add: entry_key)
          then have "entry h i \<in> entry h1 ` ({i. i < h_size h1 \<and> uhash_exists h1 i} - {x})"
            using p(10) by simp
          then obtain j where j: "j < h_size h1" "uhash_exists h1 j" "entry h i = entry h1 j"
            by auto
          then have "h_keys h1 ! j = h_keys h ! i" by (simp add: entry_def)
          then have "uhash_get hash_func equal_func h1 k = Some j"
            using get_hit[OF p(2) ok j(1,2), of k] e by simp
          then show False
            using r(1) True index_not_missing[OF table_okD(3)[OF p(2)] j(1)] by simp
        qed
      qed
      show ?thesis using False g0 g1 by (simp add: uhmap_get_miss)
    next
      case nm: False
      then have r': "r < h_size h1" "uhash_exists h1 r" "equal_func (h_keys h1 ! r) k"
        using r(2) by simp_all
      have rx: "r \<noteq> x"
      proof
        assume "r = x"
        then have "equal_func k key" using r'(3) p(5) sym trans by blast
        then show False using False by simp
      qed
      have "uhmap_get hash_func equal_func h' k d = Some (vs[x := value] ! r)"
        using uhmap_get_hit[OF t' ok _ _ _ f'(4), of r k d] r' by (simp add: f' ex')
      then have g1: "uhmap_get hash_func equal_func h' k d = Some (vs ! r)" using rx by simp
      have "entry h1 r \<in> entry h1 ` ({i. i < h_size h1 \<and> uhash_exists h1 i} - {x})"
        using r' rx by auto
      then have "entry h1 r \<in> entries h" using p(10) by simp
      then obtain i where i: "i < h_size h" "uhash_exists h i" "entry h1 r = entry h i"
        by (auto simp: entries_iff)
      have ki: "h_keys h ! i = h_keys h1 ! r" using i(3) by (simp add: entry_def)
      have "map_option (\<lambda>vs. vs ! i) (h_vals h) = Some (vs ! r)"
        using i(3) vs by (simp add: entry_def)
      then obtain vs0 where vs0: "h_vals h = Some vs0" "vs0 ! i = vs ! r"
        by (cases "h_vals h") simp_all
      have "uhmap_get hash_func equal_func h k d = Some (vs0 ! i)"
        using uhmap_get_hit[OF t ok i(1,2) _ vs0(1), of k d] r'(3) ki by simp
      then show ?thesis using g1 False vs0(2) by simp
    qed
  qed
  have old: "uhmap_get hash_func equal_func h key d = Some (vs ! x)"
    if "uhash_get hash_func equal_func h key \<noteq> Some UHASH_INDEX_MISSING" for d
  proof -
    have "entry h1 x \<in> entries h" using pp[OF that] by simp
    then obtain i where i: "i < h_size h" "uhash_exists h i" "entry h1 x = entry h i"
      by (auto simp: entries_iff)
    have ki: "h_keys h ! i = h_keys h1 ! x" using i(3) by (simp add: entry_def)
    have "map_option (\<lambda>vs. vs ! i) (h_vals h) = Some (vs ! x)"
      using i(3) vs by (simp add: entry_def)
    then obtain vs0 where vs0: "h_vals h = Some vs0" "vs0 ! i = vs ! x"
      by (cases "h_vals h") simp_all
    show ?thesis
      using uhmap_get_hit[OF t ok i(1,2) _ vs0(1), of key d] p(5) ki vs0(2) by simp
  qed
  have gm: "uhash_get hash_func equal_func h' k = Some UHASH_INDEX_MISSING \<longleftrightarrow>
            \<not> equal_func k key \<and>
            uhash_get hash_func equal_func h k = Some UHASH_INDEX_MISSING" for k
  proof -
    have "uhash_get hash_func equal_func h' k = uhash_get hash_func equal_func h1 k"
      using table_okD(2,3)[OF p(2)] table_okD(2)[OF t']
      by (intro uhash_get_agree) (simp_all add: f')
    then show ?thesis using put_miss_iff[OF t ok al room p(1), of k] by simp
  qed
  have m': "uhash_is_map h'" by (simp add: uhash_is_map_def f')
  have pos: "0 < h_size h'" using p(3) by (simp add: f')
  show ?thesis
  proof (cases "uhash_get hash_func equal_func h key = Some UHASH_INDEX_MISSING")
    case True
    have "ret \<noteq> UHASH_PRESENT"
      using pm[OF True] by (simp add: UHASH_INSERTED_def UHASH_PRESENT_def)
    then have "uhmap_set hash_func equal_func al h key value = Some (UHASH_INSERTED, None, h')"
      using set pm[OF True] by simp
    then show ?thesis using t' m' pos p(7,8,9) look gm True pm[OF True]
      by (intro exI[of _ UHASH_INSERTED] exI[of _ None] exI[of _ h']) (simp add: f')
  next
    case False
    have "uhmap_set hash_func equal_func al h key value =
          Some (UHASH_PRESENT, Some (vs ! x), h')"
      using set pp[OF False] by simp
    then show ?thesis using t' m' pos p(7,8,9) look gm False pp[OF False] old[OF False]
      by (intro exI[of _ UHASH_PRESENT] exI[of _ "Some (vs ! x)"] exI[of _ h']) (simp add: f')
  qed
qed

section \<open>Concrete tables\<close>

text \<open>
  A table whose live keys each sit in the bucket of their hash is well formed when
  its counters agree with its flags.
\<close>

lemma table_ok_home:
  assumes c: "counts_ok h" and ac: "arrays_cover h" and o: "h_size h = 0 \<or> h_occupied h < h_size h"
    and r: "\<forall>a. equal_func a a"
    and home: "\<forall>i<h_size h. uhash_exists h i \<longrightarrow> hash_func (h_keys h ! i) mod h_size h = i"
  shows "table_ok hash_func equal_func h"
proof -
  have "uhash_get hash_func equal_func h (h_keys h ! i) = Some i"
    if i: "i < h_size h" "uhash_exists h i" for i
  proof -
    have p: "pow2_size h" using c i(1) by (auto simp: counts_ok_def)
    have hm: "hash_func (h_keys h ! i) mod h_size h = i" using home i by simp
    have p0: "h_probe hash_func h (h_keys h ! i) 0 = i"
      using i(1) by (simp add: h_probe_def hm probe_0)
    have "\<not> probe_cont equal_func (h_flags h) (h_keys h) (h_keys h ! i) i"
      using i(2) r by (simp add: probe_cont_def uhash_exists_def flag_defs)
    then have "h_stops hash_func equal_func h (h_keys h ! i) 0"
      using i(1) by (simp add: h_stops_def stops_at_def hm probe_0)
    from stops_get[OF p ac this p0 i(2)] show ?thesis .
  qed
  then show ?thesis using c ac o by (simp add: table_ok_def)
qed

lemma hash_eq_ok_int32: "hash_eq_ok uhash_int32_hash uhash_identical"
  by (simp add: hash_eq_ok_def uhash_identical_def)

lemma int32_hash_small: "k < 2 ^ 32 \<Longrightarrow> uhash_int32_hash k = k"
  by (simp add: uhash_int32_hash_def ulib_uint_def)

lemma table_ok_uhset: "table_ok hash_func equal_func uhset"
  by (simp add: table_ok_def counts_ok_def arrays_cover_def uhset_def live_buckets_def)

lemma table_ok_uhmap: "table_ok hash_func equal_func uhmap"
  by (simp add: table_ok_def counts_ok_def arrays_cover_def uhmap_def uhset_def live_buckets_def)

lemma upt_4: "[0..<4] = [0, 1, 2, 3::nat]"
  by (simp add: upt_rec numeral_nat)

lemma upt_8: "[0..<8] = [0, 1, 2, 3, 4, 5, 6, 7::nat]"
  by (simp add: upt_rec numeral_nat)

lemma less_4: "i < 4 \<longleftrightarrow> i = 0 \<or> i = 1 \<or> i = 2 \<or> i = (3::nat)"
  by auto

lemma less_8: "i < 8 \<longleftrightarrow> i = 0 \<or> i = 1 \<or> i = 2 \<or> i = 3 \<or> i = 4 \<or> i = 5 \<or> i = 6 \<or> i = (7::nat)"
  by auto

lemma table_ok_set_0: "table_ok uhash_int32_hash uhash_identical set_0"
proof (rule table_ok_home)
  have "h_size set_0 = 2 ^ 2" by (simp add: set_0_def)
  then have p: "pow2_size set_0" unfolding pow2_size_def by (intro exI[of _ 2]) simp
  have "live_buckets set_0 = [0]" "used_buckets set_0 = [0]"
    by (simp_all add: live_buckets_def used_buckets_def set_0_def upt_4 uhash_exists_def flag_defs)
  then show "counts_ok set_0" using p by (simp add: counts_ok_def) (simp add: set_0_def)
  show "arrays_cover set_0" by (simp add: arrays_cover_def set_0_def)
  show "h_size set_0 = 0 \<or> h_occupied set_0 < h_size set_0" by (simp add: set_0_def)
  show "\<forall>a. uhash_identical a a" by (simp add: uhash_identical_def)
  show "\<forall>i<h_size set_0. uhash_exists set_0 i \<longrightarrow>
          uhash_int32_hash (h_keys set_0 ! i) mod h_size set_0 = i"
    by (auto simp: set_0_def less_4 uhash_exists_def flag_defs int32_hash_small)
qed

lemma table_ok_set_012: "table_ok uhash_int32_hash uhash_identical set_012"
proof (rule table_ok_home)
  have "h_size set_012 = 2 ^ 2" by (simp add: set_012_def)
  then have p: "pow2_size set_012" unfolding pow2_size_def by (intro exI[of _ 2]) simp
  have "live_buckets set_012 = [0, 1, 2]" "used_buckets set_012 = [0, 1, 2]"
    by (simp_all add: live_buckets_def used_buckets_def set_012_def upt_4 uhash_exists_def
        flag_defs)
  then show "counts_ok set_012" using p by (simp add: counts_ok_def) (simp add: set_012_def)
  show "arrays_cover set_012" by (simp add: arrays_cover_def set_012_def)
  show "h_size set_012 = 0 \<or> h_occupied set_012 < h_size set_012" by (simp add: set_012_def)
  show "\<forall>a. uhash_identical a a" by (simp add: uhash_identical_def)
  show "\<forall>i<h_size set_012. uhash_exists set_012 i \<longrightarrow>
          uhash_int32_hash (h_keys set_012 ! i) mod h_size set_012 = i"
    by (auto simp: set_012_def less_4 uhash_exists_def flag_defs int32_hash_small)
qed

lemma table_ok_set_8: "table_ok uhash_int32_hash uhash_identical set_8"
proof (rule table_ok_home)
  have "h_size set_8 = 2 ^ 3" by (simp add: set_8_def)
  then have p: "pow2_size set_8" unfolding pow2_size_def by (intro exI[of _ 3]) simp
  have "live_buckets set_8 = [0]" "used_buckets set_8 = [0]"
    by (simp_all add: live_buckets_def used_buckets_def set_8_def upt_8 uhash_exists_def
        flag_defs)
  then show "counts_ok set_8" using p by (simp add: counts_ok_def) (simp add: set_8_def)
  show "arrays_cover set_8" by (simp add: arrays_cover_def set_8_def)
  show "h_size set_8 = 0 \<or> h_occupied set_8 < h_size set_8" by (simp add: set_8_def)
  show "\<forall>a. uhash_identical a a" by (simp add: uhash_identical_def)
  show "\<forall>i<h_size set_8. uhash_exists set_8 i \<longrightarrow>
          uhash_int32_hash (h_keys set_8 ! i) mod h_size set_8 = i"
    by (auto simp: set_8_def less_8 uhash_exists_def flag_defs int32_hash_small)
qed

section \<open>Reachable tables\<close>

text \<open>Every reachable table is well formed and within its upper bound.\<close>

lemma occupied_field:
  assumes t: "table_ok hash_func equal_func h" and pos: "0 < h_size h"
  shows "p_uhash_occupied h = h_occupied h"
  using table_ok_occupied(1)[OF t] pos by simp

lemma resize_any_ok:
  fixes h :: "('k, 'v::zero) UHash"
  assumes t: "table_ok hash_func equal_func h" and ok: "hash_eq_ok hash_func equal_func"
    and b: "p_uhash_occupied h \<le> p_uhash_upper_bound (h_size h)"
    and sh: "shrink_allocs_ok al h n"
    and r: "uhash_resize hash_func al h n = Some (ret, h')"
  shows "table_ok hash_func equal_func h' \<and>
         p_uhash_occupied h' \<le> p_uhash_upper_bound (h_size h')"
proof (cases "h_count h < p_uhash_upper_bound (uhash_resize_size n)")
  case False
  then have "h' = h" using r uhash_resize_noop[of n h hash_func al] by simp
  then show ?thesis using t b by simp
next
  case cnt: True
  show ?thesis
  proof (cases "allocs_suffice al h (uhash_resize_size n)")
    case True
    from uhash_resize_ok[OF t ok True cnt] r
    have h': "table_ok hash_func equal_func h'" "h_size h' = uhash_resize_size n"
      "h_occupied h' = h_count h" by auto
    have "h_occupied h' \<le> h_size h'"
      using cnt h'(2,3) upper_bound_less[of "uhash_resize_size n"] resize_size_pow2[of n]
      by (cases "3 \<le> uhash_resize_size n") (auto simp: p_uhash_upper_bound_def)
    then have "p_uhash_occupied h' = h_occupied h'" by (simp add: p_uhash_occupied_def)
    then show ?thesis using h' cnt by simp
  next
    case False
    then have fail: "\<not> malloc_flags al \<or>
       (h_size h < uhash_resize_size n \<and>
        (realloc_keys al = None \<or> (uhash_is_map h \<and> realloc_vals al = None)))"
      using sh by (auto simp: allocs_suffice_def shrink_allocs_ok_def)
    from resize_fail[OF cnt fail, of hash_func] r
    have h1: "h' = h \<or> (\<exists>fk. h_size h < uhash_resize_size n \<and>
               h' = h\<lparr>h_keys := ulib_realloc (h_keys h) (uhash_resize_size n) fk\<rparr>)"
      by auto
    note f = resize_fail_ok[OF t h1]
    have "p_uhash_occupied h' = p_uhash_occupied h" by (simp add: p_uhash_occupied_def f)
    then show ?thesis using f(1,3) b by simp
  qed
qed

lemma put_any_ok:
  fixes h :: "('k, 'v::zero) UHash"
  assumes t: "table_ok hash_func equal_func h" and ok: "hash_eq_ok hash_func equal_func"
    and b: "p_uhash_occupied h \<le> p_uhash_upper_bound (h_size h)"
    and room: "has_room h"
    and r: "uhash_put hash_func equal_func al h key = Some (ret, x, h')"
  shows "table_ok hash_func equal_func h' \<and>
         p_uhash_occupied h' \<le> p_uhash_upper_bound (h_size h')"
proof (cases "put_allocs_ok al h")
  case True
  from put_ok[OF t ok True room, of key] r
  have h': "table_ok hash_func equal_func h'" "x < h_size h'"
    "h_occupied h' \<le> p_uhash_upper_bound (h_size h')" "h_vals h' \<noteq> None \<longleftrightarrow> uhash_is_map h"
    by auto
  have pos: "0 < h_size h'" using h'(2) by simp
  have "p_uhash_occupied h' = h_occupied h'" by (rule occupied_field[OF h'(1) pos])
  then show ?thesis using h' by simp
next
  case False
  from put_err[OF t room False, of key] r
  have e: "ret = UHASH_ERR"
    and h1: "h' = h \<or> (\<exists>fk. h_size h < put_size h \<and>
                             h' = h\<lparr>h_keys := ulib_realloc (h_keys h) (put_size h) fk\<rparr>)"
    by auto
  note f = resize_fail_ok[OF t h1]
  have "p_uhash_occupied h' = p_uhash_occupied h" by (simp add: p_uhash_occupied_def f)
  then show ?thesis using f(1,3) b by simp
qed

lemma set_any_ok:
  fixes h :: "('k, 'v::zero) UHash"
  assumes t: "table_ok hash_func equal_func h" and ok: "hash_eq_ok hash_func equal_func"
    and b: "p_uhash_occupied h \<le> p_uhash_upper_bound (h_size h)"
    and room: "has_room h"
    and r: "uhmap_set hash_func equal_func al h key value = Some (ret, ex, h')"
  shows "table_ok hash_func equal_func h' \<and>
         p_uhash_occupied h' \<le> p_uhash_upper_bound (h_size h')"
proof -
  from r obtain ret1 x h1 where p: "uhash_put hash_func equal_func al h key = Some (ret1, x, h1)"
    by (auto simp: uhmap_set_def split: option.splits)
  note a = put_any_ok[OF t ok b room p]
  show ?thesis
  proof (cases "ret1 = UHASH_ERR")
    case True
    then have "h' = h1" using r p by (simp add: uhmap_set_def)
    then show ?thesis using a by simp
  next
    case False
    then obtain vs where vs: "h_vals h1 = Some vs" "h' = h1\<lparr>h_vals := Some (vs[x := value])\<rparr>"
      using r p by (auto simp: uhmap_set_def split: option.splits if_splits)
    have "table_ok hash_func equal_func h'"
      unfolding vs(2) using a vs(1) by (intro vals_update_ok) simp_all
    moreover have "p_uhash_occupied h' = p_uhash_occupied h1" "h_size h' = h_size h1"
      by (simp_all add: vs(2) p_uhash_occupied_def)
    ultimately show ?thesis using a by simp
  qed
qed

lemma delete_any_ok:
  assumes t: "table_ok hash_func equal_func h" and ok: "hash_eq_ok hash_func equal_func"
    and b: "p_uhash_occupied h \<le> p_uhash_upper_bound (h_size h)"
    and r: "uhash_delete h x = Some h'"
  shows "table_ok hash_func equal_func h' \<and>
         p_uhash_occupied h' \<le> p_uhash_upper_bound (h_size h')"
proof -
  have c: "counts_ok h" by (rule table_okD(1)[OF t])
  have x: "x < h_size h" using r c by (auto simp: uhash_delete_def counts_ok_def split: if_splits)
  show ?thesis
  proof (cases "uhash_exists h x")
    case True
    have h': "h' = h\<lparr>h_flags := (h_flags h)[x := (False, True)], h_count := h_count h - 1\<rparr>"
      using delete_live_result(1)[OF c x True] r by simp
    have "p_uhash_occupied h' = p_uhash_occupied h" "h_size h' = h_size h"
      by (simp_all add: h' p_uhash_occupied_def)
    then show ?thesis using delete_live_ok[OF t ok x True] b by (simp add: h')
  next
    case False
    have "x < length (h_flags h)" using x c by (simp add: counts_ok_def)
    from delete_dead[OF this False] r have "h' = h" by simp
    then show ?thesis using t b by simp
  qed
qed

lemma reachable_ok:
  fixes h :: "('k, 'v::zero) UHash"
  assumes ok: "hash_eq_ok hash_func equal_func"
  shows "reachable hash_func equal_func h \<Longrightarrow>
         table_ok hash_func equal_func h \<and> p_uhash_occupied h \<le> p_uhash_upper_bound (h_size h)"
proof (induction rule: reachable.induct)
  case fresh_set
  show ?case by (simp add: table_ok_uhset) (simp add: uhset_def p_uhash_occupied_def)
next
  case fresh_map
  show ?case by (simp add: table_ok_uhmap) (simp add: uhmap_def uhset_def p_uhash_occupied_def)
next
  case (put h al key ret x h')
  then show ?case using put_any_ok[OF _ ok, of h al key ret x h'] by simp
next
  case (set h al key "value" ret ex h')
  then show ?case using set_any_ok[OF _ ok, of h al key "value" ret ex h'] by simp
next
  case (delete h x h')
  then show ?case using delete_any_ok[OF _ ok, of h x h'] by simp
next
  case (resize h al n ret h')
  then show ?case using resize_any_ok[OF _ ok, of h al n ret h'] by simp
next
  case (clear h)
  then show ?case using clear_ok[of hash_func equal_func h] by simp
qed

section \<open>Sequences of insertions\<close>

lemma alloc_ok_put: "alloc_ok al \<Longrightarrow> put_allocs_ok al h"
  by (simp add: alloc_ok_def put_allocs_ok_def)

lemma has_room_bound:
  assumes t: "table_ok hash_func equal_func h"
    and b: "p_uhash_occupied h < p_uhash_upper_bound (2 ^ 31)"
  shows "has_room h"
proof (cases "h_size h < 2 ^ 31")
  case True
  then show ?thesis by (simp add: has_room_def)
next
  case False
  then have "h_size h = 2 ^ 31" using count_le_size(2)[OF table_okD(1)[OF t]] by simp
  then show ?thesis using b by (simp add: has_room_def)
qed

text \<open>
  The insertion loop of \<open>uhset_insert_all\<close> on keys that are new and pairwise different:
  every key is inserted, and the capacity stays when the upper bound is not reached.
\<close>

lemma insert_loop_ok:
  fixes h :: "('k, 'v::zero) UHash"
  assumes ok: "hash_eq_ok hash_func equal_func" and al: "alloc_ok al"
  shows "table_ok hash_func equal_func h \<Longrightarrow>
         p_uhash_occupied h + length items \<le> p_uhash_upper_bound (2 ^ 31) \<Longrightarrow>
         \<forall>k\<in>set items. uhash_get hash_func equal_func h k = Some UHASH_INDEX_MISSING \<Longrightarrow>
         sorted_wrt (\<lambda>a b. \<not> equal_func a b) items \<Longrightarrow>
         \<exists>h'. uhset_insert_loop hash_func equal_func al h items ret =
                 Some (if items = [] then ret else UHASH_INSERTED, h') \<and>
               table_ok hash_func equal_func h' \<and>
               h_count h' = h_count h + length items \<and>
               p_uhash_occupied h' \<le> p_uhash_occupied h + length items \<and>
               (p_uhash_occupied h + length items \<le> p_uhash_upper_bound (h_size h) \<longrightarrow>
                  h_size h' = h_size h) \<and>
               (\<forall>k. uhash_get hash_func equal_func h' k = Some UHASH_INDEX_MISSING \<longleftrightarrow>
                    (\<forall>a\<in>set items. \<not> equal_func k a) \<and>
                    uhash_get hash_func equal_func h k = Some UHASH_INDEX_MISSING)"
proof (induction items arbitrary: h ret)
  case Nil
  then show ?case by simp
next
  case (Cons item items)
  note t = Cons.prems(1)
  have room: "has_room h" using Cons.prems(2) by (intro has_room_bound[OF t]) simp
  have miss: "uhash_get hash_func equal_func h item = Some UHASH_INDEX_MISSING"
    using Cons.prems(3) by simp
  from put_ok[OF t ok alloc_ok_put[OF al] room, of item] miss
  obtain x h1 where p0:
    "uhash_put hash_func equal_func al h item = Some (UHASH_INSERTED, x, h1) \<and>
     table_ok hash_func equal_func h1 \<and> x < h_size h1 \<and>
     h_occupied h1 \<le> p_uhash_occupied h + 1 \<and> h_size h1 = put_size h \<and>
     h_count h1 = h_count h + 1"
    by auto
  have p: "uhash_put hash_func equal_func al h item = Some (UHASH_INSERTED, x, h1)"
    "table_ok hash_func equal_func h1" "x < h_size h1"
    "h_occupied h1 \<le> p_uhash_occupied h + 1" "h_size h1 = put_size h"
    "h_count h1 = h_count h + 1"
    using p0 by blast+
  note mi = put_miss_iff[OF t ok alloc_ok_put[OF al] room p(1)]
  have o1: "p_uhash_occupied h1 \<le> p_uhash_occupied h + 1"
    using p(4) by (simp add: p_uhash_occupied_def)
  have b1: "p_uhash_occupied h1 + length items \<le> p_uhash_upper_bound (2 ^ 31)"
    using o1 Cons.prems(2) by simp
  have sym: "equal_func a b \<Longrightarrow> equal_func b a" for a b by (rule hash_eq_okD(2)[OF ok])
  have m1: "\<forall>k\<in>set items. uhash_get hash_func equal_func h1 k = Some UHASH_INDEX_MISSING"
  proof
    fix k assume k: "k \<in> set items"
    then have "\<not> equal_func item k" using Cons.prems(4) by simp
    then have "\<not> equal_func k item" using sym by blast
    then show "uhash_get hash_func equal_func h1 k = Some UHASH_INDEX_MISSING"
      using mi[of k] Cons.prems(3) k by simp
  qed
  have s1: "sorted_wrt (\<lambda>a b. \<not> equal_func a b) items" using Cons.prems(4) by simp
  from Cons.IH[OF p(2) b1 m1 s1, of UHASH_INSERTED] obtain h' where h'0:
    "uhset_insert_loop hash_func equal_func al h1 items UHASH_INSERTED =
                 Some (if items = [] then UHASH_INSERTED else UHASH_INSERTED, h') \<and>
     table_ok hash_func equal_func h' \<and>
     h_count h' = h_count h1 + length items \<and>
     p_uhash_occupied h' \<le> p_uhash_occupied h1 + length items \<and>
     (p_uhash_occupied h1 + length items \<le> p_uhash_upper_bound (h_size h1) \<longrightarrow>
        h_size h' = h_size h1) \<and>
     (\<forall>k. uhash_get hash_func equal_func h' k = Some UHASH_INDEX_MISSING \<longleftrightarrow>
          (\<forall>a\<in>set items. \<not> equal_func k a) \<and>
          uhash_get hash_func equal_func h1 k = Some UHASH_INDEX_MISSING)"
    by (elim exE) (rule that)
  have h': "uhset_insert_loop hash_func equal_func al h1 items UHASH_INSERTED =
              Some (UHASH_INSERTED, h')"
    "table_ok hash_func equal_func h'" "h_count h' = h_count h1 + length items"
    "p_uhash_occupied h' \<le> p_uhash_occupied h1 + length items"
    "p_uhash_occupied h1 + length items \<le> p_uhash_upper_bound (h_size h1) \<longrightarrow>
        h_size h' = h_size h1"
    "\<forall>k. uhash_get hash_func equal_func h' k = Some UHASH_INDEX_MISSING \<longleftrightarrow>
          (\<forall>a\<in>set items. \<not> equal_func k a) \<and>
          uhash_get hash_func equal_func h1 k = Some UHASH_INDEX_MISSING"
    using h'0 by simp_all
  have run: "uhset_insert_loop hash_func equal_func al h (item # items) ret =
             Some (UHASH_INSERTED, h')"
    using p(1) h'(1) by (simp add: UHASH_INSERTED_def UHASH_ERR_def)
  have sz: "h_size h' = h_size h"
    if "p_uhash_occupied h + length (item # items) \<le> p_uhash_upper_bound (h_size h)"
  proof -
    have "p_uhash_occupied h < p_uhash_upper_bound (h_size h)" using that by simp
    then have "h_size h1 = h_size h" using p(5) by (simp add: put_size_def)
    moreover have "p_uhash_occupied h1 + length items \<le> p_uhash_upper_bound (h_size h1)"
      using that o1 calculation by simp
    ultimately show ?thesis using h'(5) by simp
  qed
  have look: "uhash_get hash_func equal_func h' k = Some UHASH_INDEX_MISSING \<longleftrightarrow>
          (\<forall>a\<in>set (item # items). \<not> equal_func k a) \<and>
          uhash_get hash_func equal_func h k = Some UHASH_INDEX_MISSING" for k
    using h'(6) mi[of k] by auto
  have "p_uhash_occupied h' \<le> p_uhash_occupied h + length (item # items)"
    using h'(4) o1 by simp
  moreover have "h_count h' = h_count h + length (item # items)" using h'(3) p(6) by simp
  ultimately show ?case using run h'(2) sz look
    by (intro exI[of _ h']) (simp del: uhset_insert_loop.simps)
qed

lemma insert_all_fresh:
  fixes h :: "('k, 'v::zero) UHash"
  assumes ok: "hash_eq_ok hash_func equal_func" and al: "alloc_ok al"
    and t: "table_ok hash_func equal_func h" and ne: "items \<noteq> []"
    and b: "h_count h + length items \<le> p_uhash_upper_bound (uhash_resize_size (length items))"
    and miss: "\<forall>k\<in>set items. uhash_get hash_func equal_func h k = Some UHASH_INDEX_MISSING"
    and d: "sorted_wrt (\<lambda>a b. \<not> equal_func a b) items"
  shows "\<exists>h'. uhset_insert_all hash_func equal_func al h items = Some (UHASH_INSERTED, h') \<and>
           table_ok hash_func equal_func h' \<and>
           h_size h' = uhash_resize_size (length items) \<and>
           h_count h' = h_count h + length items"
proof -
  define ns where "ns = uhash_resize_size (length items)"
  have cnt: "h_count h < p_uhash_upper_bound (uhash_resize_size (length items))"
    using b ne by (cases items) simp_all
  from uhash_resize_ok[OF t ok alloc_ok_suffice[OF al] cnt] obtain h1 where h1:
    "uhash_resize hash_func al h (length items) = Some (UHASH_OK, h1)"
    "table_ok hash_func equal_func h1" "entries h1 = entries h"
    "h_size h1 = ns" "h_count h1 = h_count h" "h_occupied h1 = h_count h"
    unfolding ns_def by blast
  obtain k where k: "2 \<le> k" "k \<le> 31" "ns = 2 ^ k"
    using resize_size_pow2[of "length items"] by (auto simp: ns_def)
  have le: "ns \<le> 2 ^ 31" using power_increasing[of k 31 "2::nat"] k by simp
  have four: "4 \<le> ns" using power_increasing[of 2 k "2::nat"] k by simp
  have o1: "p_uhash_occupied h1 = h_count h"
    using occupied_field[OF h1(2)] four h1(4,6) by simp
  have b1: "p_uhash_occupied h1 + length items \<le> p_uhash_upper_bound (h_size h1)"
    using b by (simp add: o1 h1(4) ns_def)
  have b2: "p_uhash_occupied h1 + length items \<le> p_uhash_upper_bound (2 ^ 31)"
    using b1 upper_bound_mono[OF le] by (simp add: h1(4))
  have m1: "\<forall>k\<in>set items. uhash_get hash_func equal_func h1 k = Some UHASH_INDEX_MISSING"
    using miss by (simp add: get_miss_entries[OF t ok] get_miss_entries[OF h1(2) ok] h1(3))
  from insert_loop_ok[OF ok al h1(2) b2 m1 d, of UHASH_PRESENT] ne b1
  obtain h' where h':
    "uhset_insert_loop hash_func equal_func al h1 items UHASH_PRESENT =
       Some (UHASH_INSERTED, h')"
    "table_ok hash_func equal_func h'" "h_count h' = h_count h1 + length items"
    "h_size h' = h_size h1"
    by auto
  have "uhset_insert_all hash_func equal_func al h items = Some (UHASH_INSERTED, h')"
    using h1(1) h'(1) by (simp add: uhset_insert_all_def UHASH_OK_def)
  then show ?thesis using h'(2,3,4) h1(4,5) by (simp add: ns_def)
qed

text \<open>
  A sequence of successful \<open>uhmap_set\<close> calls: afterwards a key is missing when no call
  set it and it was missing before, and \<open>uhmap_get\<close> returns the value of the last
  call that set the key.
\<close>

lemma set_all_ok:
  fixes h :: "('k, 'v::zero) UHash"
  assumes ok: "hash_eq_ok hash_func equal_func"
  shows "table_ok hash_func equal_func h \<Longrightarrow> uhash_is_map h \<Longrightarrow>
         p_uhash_occupied h + length ops \<le> p_uhash_upper_bound (2 ^ 31) \<Longrightarrow>
         uhmap_set_all hash_func equal_func h ops = Some h' \<Longrightarrow>
         table_ok hash_func equal_func h' \<and> uhash_is_map h' \<and>
         p_uhash_occupied h' \<le> p_uhash_occupied h + length ops \<and>
         (\<forall>k. uhash_get hash_func equal_func h' k = Some UHASH_INDEX_MISSING \<longleftrightarrow>
              last_set equal_func ops k = None \<and>
              uhash_get hash_func equal_func h k = Some UHASH_INDEX_MISSING) \<and>
         (\<forall>k d. uhmap_get hash_func equal_func h' k d =
                  (case last_set equal_func ops k of
                     Some v \<Rightarrow> Some v
                   | None \<Rightarrow> uhmap_get hash_func equal_func h k d))"
proof (induction ops arbitrary: h)
  case Nil
  then show ?case by simp
next
  case (Cons op ops)
  obtain al key "value" where op: "op = (al, key, value)" by (cases op) auto
  note t = Cons.prems(1) and m = Cons.prems(2)
  have room: "has_room h" using Cons.prems(3) by (intro has_room_bound[OF t]) simp
  from Cons.prems(4) obtain ret ex h1 where s:
    "uhmap_set hash_func equal_func al h key value = Some (ret, ex, h1)" "ret \<noteq> UHASH_ERR"
    "uhmap_set_all hash_func equal_func h1 ops = Some h'"
    by (auto simp: op split: option.splits if_splits)
  from s(1,2) obtain x h0 where p: "uhash_put hash_func equal_func al h key = Some (ret, x, h0)"
    by (auto simp: uhmap_set_def split: option.splits if_splits)
  have al: "put_allocs_ok al h" by (rule put_success_allocs[OF t room p s(2)])
  from uhmap_set_ok[OF t ok al room m, of key "value"] s(1)
  have h1: "table_ok hash_func equal_func h1" "uhash_is_map h1"
    "h_occupied h1 \<le> p_uhash_occupied h + 1"
    "\<forall>k d. uhmap_get hash_func equal_func h1 k d =
             (if equal_func k key then Some value else uhmap_get hash_func equal_func h k d)"
    "\<forall>k. uhash_get hash_func equal_func h1 k = Some UHASH_INDEX_MISSING \<longleftrightarrow>
          \<not> equal_func k key \<and> uhash_get hash_func equal_func h k = Some UHASH_INDEX_MISSING"
    by auto
  have o1: "p_uhash_occupied h1 \<le> p_uhash_occupied h + 1"
    using h1(3) by (simp add: p_uhash_occupied_def)
  have b1: "p_uhash_occupied h1 + length ops \<le> p_uhash_upper_bound (2 ^ 31)"
    using o1 Cons.prems(3) by simp
  note ih = Cons.IH[OF h1(1,2) b1 s(3)]
  have sym: "equal_func a b \<longleftrightarrow> equal_func b a" for a b using hash_eq_okD(2)[OF ok] by blast
  have "p_uhash_occupied h' \<le> p_uhash_occupied h + length (op # ops)" using ih o1 by simp
  moreover have "uhash_get hash_func equal_func h' k = Some UHASH_INDEX_MISSING \<longleftrightarrow>
              last_set equal_func (op # ops) k = None \<and>
              uhash_get hash_func equal_func h k = Some UHASH_INDEX_MISSING" for k
    using ih h1(5) sym[of key k] by (auto simp: op split: option.splits)
  moreover have "uhmap_get hash_func equal_func h' k d =
                  (case last_set equal_func (op # ops) k of
                     Some v \<Rightarrow> Some v
                   | None \<Rightarrow> uhmap_get hash_func equal_func h k d)" for k d
    using ih h1(4) sym[of key k] by (auto simp: op split: option.splits)
  ultimately show ?case using ih by blast
qed

text \<open>When every allocation succeeds, so does every call of the sequence.\<close>

lemma set_all_total:
  fixes h :: "('k, 'v::zero) UHash"
  assumes ok: "hash_eq_ok hash_func equal_func"
  shows "table_ok hash_func equal_func h \<Longrightarrow> uhash_is_map h \<Longrightarrow>
         p_uhash_occupied h + length ops \<le> p_uhash_upper_bound (2 ^ 31) \<Longrightarrow>
         \<forall>op\<in>set ops. alloc_ok (fst op) \<Longrightarrow>
         \<exists>h'. uhmap_set_all hash_func equal_func h ops = Some h'"
proof (induction ops arbitrary: h)
  case Nil
  then show ?case by simp
next
  case (Cons op ops)
  obtain al key "value" where op: "op = (al, key, value)" by (cases op) auto
  note t = Cons.prems(1) and m = Cons.prems(2)
  have room: "has_room h" using Cons.prems(3) by (intro has_room_bound[OF t]) simp
  have al: "put_allocs_ok al h" using Cons.prems(4) by (intro alloc_ok_put) (simp add: op)
  from uhmap_set_ok[OF t ok al room m, of key "value"]
  obtain ret ex h1 where h1:
    "uhmap_set hash_func equal_func al h key value = Some (ret, ex, h1)"
    "table_ok hash_func equal_func h1" "uhash_is_map h1"
    "h_occupied h1 \<le> p_uhash_occupied h + 1"
    "ret = UHASH_INSERTED \<or> ret = UHASH_PRESENT"
    by (auto split: if_splits)
  have o1: "p_uhash_occupied h1 \<le> p_uhash_occupied h + 1"
    using h1(4) by (simp add: p_uhash_occupied_def)
  have b1: "p_uhash_occupied h1 + length ops \<le> p_uhash_upper_bound (2 ^ 31)"
    using o1 Cons.prems(3) by simp
  have "\<forall>op\<in>set ops. alloc_ok (fst op)" using Cons.prems(4) by simp
  from Cons.IH[OF h1(2,3) b1 this] obtain h' where
    "uhmap_set_all hash_func equal_func h1 ops = Some h'" by blast
  moreover have "ret \<noteq> UHASH_ERR"
    using h1(5) by (auto simp: UHASH_ERR_def UHASH_INSERTED_def UHASH_PRESENT_def)
  ultimately show ?case using h1(1) by (simp add: op)
qed

section \<open>Values of the examples\<close>

lemma resize_size_values:
  "uhash_resize_size 200 = 256" "uhash_resize_size 100 = 128" "uhash_resize_size 25 = 32"
  "uhash_resize_size 4 = 4" "uhash_resize_size 5 = 8" "uhash_resize_size 3 = 4"
  by (simp_all add: uhash_resize_size_def ulib_uint_next_power_2_def round_up_pow2_numeral)

lemma upper_bound_values:
  "p_uhash_upper_bound 4 = 3" "p_uhash_upper_bound 8 = 6" "p_uhash_upper_bound 32 = 25"
  "p_uhash_upper_bound 128 = 99" "p_uhash_upper_bound 256 = 197"
  by (simp_all add: p_uhash_upper_bound_def)

lemma alloc_ok_succeed: "alloc_ok allocs_succeed"
  by (simp add: alloc_ok_def allocs_succeed_def)

lemma table_ok_set_del: "table_ok uhash_int32_hash uhash_identical set_del"
proof (rule table_ok_home)
  have "h_size set_del = 2 ^ 2" by (simp add: set_del_def)
  then have p: "pow2_size set_del" unfolding pow2_size_def by (intro exI[of _ 2]) simp
  have "live_buckets set_del = []" "used_buckets set_del = [0]"
    by (simp_all add: live_buckets_def used_buckets_def set_del_def upt_4 uhash_exists_def
        flag_defs)
  then show "counts_ok set_del" using p by (simp add: counts_ok_def) (simp add: set_del_def)
  show "arrays_cover set_del" by (simp add: arrays_cover_def set_del_def)
  show "h_size set_del = 0 \<or> h_occupied set_del < h_size set_del" by (simp add: set_del_def)
  show "\<forall>a. uhash_identical a a" by (simp add: uhash_identical_def)
  show "\<forall>i<h_size set_del. uhash_exists set_del i \<longrightarrow>
          uhash_int32_hash (h_keys set_del ! i) mod h_size set_del = i"
    by (auto simp: set_del_def less_4 uhash_exists_def flag_defs int32_hash_small)
qed

text \<open>In tables with the same elements \<open>uhmap_get\<close> returns the same.\<close>

lemma uhmap_get_same:
  assumes t: "table_ok hash_func equal_func h" and t': "table_ok hash_func equal_func h'"
    and ok: "hash_eq_ok hash_func equal_func" and e: "entries h' = entries h"
  shows "uhmap_get hash_func equal_func h' key d = uhmap_get hash_func equal_func h key d"
proof (cases "uhash_get hash_func equal_func h key = Some UHASH_INDEX_MISSING")
  case True
  then have "uhash_get hash_func equal_func h' key = Some UHASH_INDEX_MISSING"
    by (simp add: get_miss_entries[OF t ok] get_miss_entries[OF t' ok] e)
  then show ?thesis using True by (simp add: uhmap_get_def)
next
  case False
  have val: "uhmap_get hash_func equal_func g key d = snd (entry g i)"
    if g: "table_ok hash_func equal_func g" and i: "i < h_size g" "uhash_exists g i"
      "equal_func (h_keys g ! i) key" for g :: "('a, 'b) UHash" and i
  proof (cases "h_vals g")
    case None
    then show ?thesis
      using get_hit[OF g ok i] index_not_missing[OF table_okD(3)[OF g] i(1)]
      by (simp add: uhmap_get_def entry_def)
  next
    case (Some vs)
    then show ?thesis using uhmap_get_hit[OF g ok i Some] by (simp add: entry_def)
  qed
  from get_some[OF t, of key] False obtain i where i:
    "i < h_size h" "uhash_exists h i" "equal_func (h_keys h ! i) key" by auto
  have "entry h i \<in> entries h'" using i e by (auto simp: entries_iff)
  then obtain j where j: "j < h_size h'" "uhash_exists h' j" "entry h i = entry h' j"
    by (auto simp: entries_iff)
  have "h_keys h' ! j = h_keys h ! i" using j(3) by (simp add: entry_def)
  then have "equal_func (h_keys h' ! j) key" using i(3) by simp
  from val[OF t' j(1,2) this] val[OF t i] j(3) show ?thesis by simp
qed

section \<open>The claims\<close>

text \<open>
  C6. Lookup terminates, in every table whose capacity is 0 or a power of two that a
  \<^verbatim>\<open>ulib_uint\<close> holds: \<open>uhash_get\<close> returns a result. With capacity 0 the result is
  the missing sentinel. Otherwise the triangular probe sequence from the start index
  either stops within the first \<open>h_size\<close> steps, at an empty bucket (the result is
  the sentinel) or at a live bucket whose key is equal to the query (the result is
  that bucket); or no bucket stops it, the sequence is back at its start index after
  \<open>2 * h_size - 1\<close> steps at the latest, and the result is the sentinel.
\<close>

theorem uhash_get_terminates:
  assumes sz: "h_size h = 0 \<or> pow2_size h" and ac: "arrays_cover h"
  shows "\<exists>r. uhash_get hash_func equal_func h key = Some r \<and>
           ((h_size h = 0 \<and> r = UHASH_INDEX_MISSING) \<or>
            (\<exists>n. h_stops hash_func equal_func h key n \<and>
                 p_uhf_isempty (h_flags h) (h_probe hash_func h key n) \<and>
                 r = UHASH_INDEX_MISSING) \<or>
            (\<exists>n. h_stops hash_func equal_func h key n \<and>
                 uhash_exists h (h_probe hash_func h key n) \<and>
                 equal_func (h_keys h ! h_probe hash_func h key n) key \<and>
                 r = h_probe hash_func h key n) \<or>
            ((\<forall>b<h_size h. probe_cont equal_func (h_flags h) (h_keys h) key b) \<and>
             h_probe hash_func h key (2 * h_size h - 1) = h_probe hash_func h key 0 \<and>
             r = UHASH_INDEX_MISSING))"
proof (cases "h_size h = 0")
  case True
  then show ?thesis by (simp add: uhash_get_def)
next
  case False
  then have p: "pow2_size h" using sz by simp
  from h_stops_or_full[OF p, of hash_func equal_func key] show ?thesis
  proof
    assume "\<exists>n. h_stops hash_func equal_func h key n"
    then obtain n where n: "h_stops hash_func equal_func h key n" ..
    let ?b = "h_probe hash_func h key n"
    have nc: "\<not> probe_cont equal_func (h_flags h) (h_keys h) key ?b"
      using n by (simp add: h_stops_def stops_at_def h_probe_def)
    show ?thesis
    proof (cases "p_uhf_isempty (h_flags h) ?b")
      case True
      then have "uhash_get hash_func equal_func h key = Some UHASH_INDEX_MISSING"
        using uhash_get_stops[OF p ac n] by (simp add: p_uhf_iseither_def p_uhf_isempty_def)
      then show ?thesis using n True by blast
    next
      case ne: False
      then have live: "\<not> p_uhf_iseither (h_flags h) ?b" and eq: "equal_func (h_keys h ! ?b) key"
        using nc by (auto simp: probe_cont_def p_uhf_iseither_def p_uhf_isempty_def p_uhf_isdel_def)
      have "uhash_get hash_func equal_func h key = Some ?b"
        using uhash_get_stops[OF p ac n] live by simp
      then show ?thesis using n live eq by (auto simp: uhash_exists_def)
    qed
  next
    assume full: "\<forall>b<h_size h. probe_cont equal_func (h_flags h) (h_keys h) key b"
    then have g: "uhash_get hash_func equal_func h key = Some UHASH_INDEX_MISSING"
      using uhash_get_full[OF p ac, of equal_func key hash_func] by simp
    have pos: "0 < h_size h" using p by (rule pow2_size_pos)
    have "h_probe hash_func h key (2 * h_size h - 1) = h_probe hash_func h key 0"
      using pos probe_return[of "h_size h" "hash_func key mod h_size h"]
      by (simp add: h_probe_def probe_0)
    then show ?thesis using g full by blast
  qed
qed

theorem uhash_get_terminates_witness:
  "(h_size set_0 = 0 \<or> pow2_size set_0) \<and> arrays_cover set_0 \<and>
   (\<exists>r. uhash_get uhash_int32_hash uhash_identical set_0 0 = Some r \<and>
      ((h_size set_0 = 0 \<and> r = UHASH_INDEX_MISSING) \<or>
       (\<exists>n. h_stops uhash_int32_hash uhash_identical set_0 0 n \<and>
            p_uhf_isempty (h_flags set_0) (h_probe uhash_int32_hash set_0 0 n) \<and>
            r = UHASH_INDEX_MISSING) \<or>
       (\<exists>n. h_stops uhash_int32_hash uhash_identical set_0 0 n \<and>
            uhash_exists set_0 (h_probe uhash_int32_hash set_0 0 n) \<and>
            uhash_identical (h_keys set_0 ! h_probe uhash_int32_hash set_0 0 n) 0 \<and>
            r = h_probe uhash_int32_hash set_0 0 n) \<or>
       ((\<forall>b<h_size set_0. probe_cont uhash_identical (h_flags set_0) (h_keys set_0) 0 b) \<and>
        h_probe uhash_int32_hash set_0 0 (2 * h_size set_0 - 1) = h_probe uhash_int32_hash set_0 0 0 \<and>
        r = UHASH_INDEX_MISSING)))"
proof -
  have "h_size set_0 = 2 ^ 2" by (simp add: set_0_def)
  then have p: "h_size set_0 = 0 \<or> pow2_size set_0"
    unfolding pow2_size_def by (intro disjI2 exI[of _ 2]) simp
  have a: "arrays_cover set_0" by (simp add: arrays_cover_def set_0_def)
  from uhash_get_terminates[OF p a] p a show ?thesis by blast
qed

text \<open>
  C7. Where the code breaks the claim: a resize of \<open>set_8\<close> to capacity 4 in which the
  new flags are obtained and the reallocation that shrinks the key array fails. The
  call returns \<open>UHASH_OK\<close>, not \<open>UHASH_ERR\<close>, and leaves the table without its key
  array (the \<^verbatim>\<open>NULL\<close> that \<^verbatim>\<open>ulib_realloc\<close> returned) while its count is still 1.
\<close>

theorem resize_shrink_failure_unnoticed:
  "map_option fst (uhash_resize uhash_int32_hash realloc_fails set_8 4) = Some UHASH_OK \<and>
   map_option (h_keys \<circ> snd) (uhash_resize uhash_int32_hash realloc_fails set_8 4) = Some [] \<and>
   map_option (h_count \<circ> snd) (uhash_resize uhash_int32_hash realloc_fails set_8 4) = Some 1 \<and>
   h_keys set_8 \<noteq> []"
proof -
  have mf: "malloc_flags realloc_fails" by (simp add: realloc_fails_def)
  have g: "h_size set_8 < uhash_resize_size 4 \<longrightarrow>
             realloc_keys realloc_fails \<noteq> None \<and>
             (uhash_is_map set_8 \<longrightarrow> realloc_vals realloc_fails \<noteq> None)"
    by (simp add: resize_size_values set_8_def)
  have c: "h_count set_8 < p_uhash_upper_bound (uhash_resize_size 4)"
    by (simp add: resize_size_values upper_bound_values set_8_def)
  have s: "uhash_resize_size 4 < h_size set_8 \<and> realloc_keys realloc_fails = None"
    by (simp add: resize_size_values set_8_def realloc_fails_def)
  from resize_result[OF table_ok_set_8 hash_eq_ok_int32 mf g c] s
  obtain h' where "uhash_resize uhash_int32_hash realloc_fails set_8 4 = Some (UHASH_OK, h')"
    "h_keys h' = []" "h_count h' = h_count set_8" by auto
  then show ?thesis by (simp add: set_8_def)
qed

text \<open>
  C9, as the spec states it, fails. A resize with target 200 of a table of capacity 4
  that holds one element, here \<open>set_0\<close>, leaves capacity 256, the least power of two
  that is not below 200. That is not a power of two from \<open>200 / 0.77\<close> on: 256 is
  below \<open>200 / 0.77\<close>.
\<close>

theorem resize_200_is_256:
  "map_option (h_size \<circ> snd) (uhash_resize uhash_int32_hash allocs_succeed set_0 200) = Some 256 \<and>
   \<not> 200 * 100 \<le> 77 * (256::nat)"
proof -
  have a: "allocs_suffice allocs_succeed set_0 (uhash_resize_size 200)"
    by (rule alloc_ok_suffice[OF alloc_ok_succeed])
  have c: "h_count set_0 < p_uhash_upper_bound (uhash_resize_size 200)"
    by (simp add: resize_size_values upper_bound_values set_0_def)
  from uhash_resize_ok[OF table_ok_set_0 hash_eq_ok_int32 a c] show ?thesis
    by (auto simp: resize_size_values)
qed

text \<open>
  C9 with the capacity as the code computes it: in a well-formed table of capacity 4
  that holds one element, a resize with target 200 succeeds and leaves capacity 256,
  the request rounded up to a power of two; a resize with target 100 after it
  succeeds and leaves capacity 128, which is smaller.
\<close>

theorem resize_up_then_down:
  fixes h :: "('k, 'v::zero) UHash"
  assumes ok: "hash_eq_ok hash_func equal_func" and t: "table_ok hash_func equal_func h"
    and h: "h_size h = 4" "h_count h = 1"
    and al: "alloc_ok al1" "alloc_ok al2"
  shows "\<exists>h1 h2. uhash_resize hash_func al1 h 200 = Some (UHASH_OK, h1) \<and>
           h_size h1 = 256 \<and> h_size h1 = uhash_resize_size 200 \<and>
           uhash_resize hash_func al2 h1 100 = Some (UHASH_OK, h2) \<and>
           h_size h2 = 128 \<and> h_size h2 < h_size h1 \<and> h_count h2 = 1"
proof -
  have c1: "h_count h < p_uhash_upper_bound (uhash_resize_size 200)"
    by (simp add: resize_size_values upper_bound_values h)
  from uhash_resize_ok[OF t ok alloc_ok_suffice[OF al(1)] c1] obtain h1 where h1:
    "uhash_resize hash_func al1 h 200 = Some (UHASH_OK, h1)"
    "table_ok hash_func equal_func h1" "h_size h1 = 256" "h_count h1 = 1"
    by (auto simp: resize_size_values h)
  have c2: "h_count h1 < p_uhash_upper_bound (uhash_resize_size 100)"
    by (simp add: resize_size_values upper_bound_values h1)
  from uhash_resize_ok[OF h1(2) ok alloc_ok_suffice[OF al(2)] c2] obtain h2 where h2:
    "uhash_resize hash_func al2 h1 100 = Some (UHASH_OK, h2)"
    "h_size h2 = 128" "h_count h2 = 1"
    by (auto simp: resize_size_values h1)
  show ?thesis using h1 h2 by (auto simp: resize_size_values)
qed

theorem resize_up_then_down_witness:
  "hash_eq_ok uhash_int32_hash uhash_identical \<and>
   table_ok uhash_int32_hash uhash_identical set_0 \<and>
   h_size set_0 = 4 \<and> h_count set_0 = 1 \<and> alloc_ok allocs_succeed \<and>
   (\<exists>h1 h2. uhash_resize uhash_int32_hash allocs_succeed set_0 200 = Some (UHASH_OK, h1) \<and>
      h_size h1 = 256 \<and> h_size h1 = uhash_resize_size 200 \<and>
      uhash_resize uhash_int32_hash allocs_succeed h1 100 = Some (UHASH_OK, h2) \<and>
      h_size h2 = 128 \<and> h_size h2 < h_size h1 \<and> h_count h2 = 1)"
proof -
  have s: "h_size set_0 = 4" "h_count set_0 = 1" by (simp_all add: set_0_def)
  from resize_up_then_down[OF hash_eq_ok_int32 table_ok_set_0 s alloc_ok_succeed
      alloc_ok_succeed]
  show ?thesis using hash_eq_ok_int32 table_ok_set_0 s alloc_ok_succeed by blast
qed

text \<open>
  C10. A call of \<open>uhash_resize\<close> on a well-formed table that is not refused (the count is
  below the upper bound of the rounded capacity) and returns \<open>UHASH_OK\<close> leaves
  \<open>h_occupied\<close> equal to \<open>h_count\<close>, which it does not change, and no flag of the new
  table has its deleted bit set: no bucket is a tombstone. The load factor check of
  \<open>uhash_put\<close>, which reads \<open>p_uhash_occupied\<close>, then sees the live elements only.
\<close>

theorem resize_purges_tombstones:
  fixes h :: "('k, 'v::zero) UHash"
  assumes ok: "hash_eq_ok hash_func equal_func" and t: "table_ok hash_func equal_func h"
    and cnt: "h_count h < p_uhash_upper_bound (uhash_resize_size n)"
    and res: "uhash_resize hash_func al h n = Some (UHASH_OK, h')"
  shows "h_occupied h' = h_count h' \<and> h_count h' = h_count h \<and>
         p_uhash_occupied h' = h_count h' \<and>
         length (h_flags h') = h_size h' \<and>
         (\<forall>i<h_size h'. \<not> p_uhf_isdel (h_flags h') i)"
proof -
  have al: "malloc_flags al \<and> (h_size h < uhash_resize_size n \<longrightarrow>
             realloc_keys al \<noteq> None \<and> (uhash_is_map h \<longrightarrow> realloc_vals al \<noteq> None))"
  proof (rule ccontr)
    assume "\<not> ?thesis"
    then have "\<not> malloc_flags al \<or>
       (h_size h < uhash_resize_size n \<and>
        (realloc_keys al = None \<or> (uhash_is_map h \<and> realloc_vals al = None)))" by auto
    from resize_fail[OF cnt this, of hash_func] res show False
      by (auto simp: UHASH_OK_def UHASH_ERR_def)
  qed
  from resize_result[OF t ok _ _ cnt, of al] al res
  have r: "h_size h' = uhash_resize_size n" "h_count h' = h_count h"
    "h_occupied h' = h_count h" "h_count h < uhash_resize_size n"
    "length (h_flags h') = uhash_resize_size n"
    "\<forall>i<uhash_resize_size n. \<not> p_uhf_isdel (h_flags h') i"
    by auto
  have "p_uhash_occupied h' = h_count h'" using r(1-4) by (simp add: p_uhash_occupied_def)
  then show ?thesis using r by simp
qed

theorem resize_purges_tombstones_witness:
  "hash_eq_ok uhash_int32_hash uhash_identical \<and>
   table_ok uhash_int32_hash uhash_identical set_del \<and>
   h_count set_del < p_uhash_upper_bound (uhash_resize_size 4) \<and>
   p_uhf_isdel (h_flags set_del) 0 \<and> h_occupied set_del = 1 \<and> h_count set_del = 0 \<and>
   (\<exists>h'. uhash_resize uhash_int32_hash allocs_succeed set_del 4 = Some (UHASH_OK, h') \<and>
      h_occupied h' = h_count h' \<and> h_count h' = h_count set_del \<and>
      p_uhash_occupied h' = h_count h' \<and> length (h_flags h') = h_size h' \<and>
      \<not> p_uhf_isdel (h_flags h') 0 \<and> \<not> p_uhf_isdel (h_flags h') 1 \<and>
      \<not> p_uhf_isdel (h_flags h') 2 \<and> \<not> p_uhf_isdel (h_flags h') 3 \<and> h_size h' = 4)"
proof -
  have c: "h_count set_del < p_uhash_upper_bound (uhash_resize_size 4)"
    by (simp add: resize_size_values upper_bound_values set_del_def)
  have d: "p_uhf_isdel (h_flags set_del) 0" "h_occupied set_del = 1" "h_count set_del = 0"
    by (simp_all add: set_del_def flag_defs)
  from uhash_resize_ok[OF table_ok_set_del hash_eq_ok_int32
      alloc_ok_suffice[OF alloc_ok_succeed] c]
  obtain h' where h': "uhash_resize uhash_int32_hash allocs_succeed set_del 4 = Some (UHASH_OK, h')"
    "h_size h' = 4" by (auto simp: resize_size_values)
  from resize_purges_tombstones[OF hash_eq_ok_int32 table_ok_set_del c h'(1)] h'(2)
  have "h_occupied h' = h_count h' \<and> h_count h' = h_count set_del \<and>
      p_uhash_occupied h' = h_count h' \<and> length (h_flags h') = h_size h' \<and>
      \<not> p_uhf_isdel (h_flags h') 0 \<and> \<not> p_uhf_isdel (h_flags h') 1 \<and>
      \<not> p_uhf_isdel (h_flags h') 2 \<and> \<not> p_uhf_isdel (h_flags h') 3"
    by simp
  then show ?thesis using hash_eq_ok_int32 table_ok_set_del c d h' by blast
qed

end
